theory Spec2Isabelle
  imports Complex_Main "HOL-Library.Word" "HOL-Library.Log_Nat"
begin

section \<open>Data model\<close>

text \<open>
  The analyzer is TypeScript; every \<^verbatim>\<open>number\<close> of the source that is not an array
  index or a byte is modelled as a \<^typ>\<open>real\<close>: a finite double whose arithmetic is exact.
  Rounding of doubles, \<^verbatim>\<open>NaN\<close> and the infinities are outside this model, so the guards
  \<^verbatim>\<open>isNaN\<close> and \<^verbatim>\<open>isFinite\<close> of the source never fire in it. The IC50 estimator is
  embedded a second time in binary64 arithmetic, with its rounding, \<^verbatim>\<open>NaN\<close> and the
  infinities, in a section of its own. Array indices, counts
  and loop counters are \<^typ>\<open>nat\<close>, pixel coordinates \<^typ>\<open>int\<close>, bytes of an
  \<^verbatim>\<open>ImageData\<close> buffer \<^typ>\<open>8 word\<close>.

  Field names carry a prefix where the source's name is a single letter or a constant of
  HOL (\<^verbatim>\<open>x\<close>, \<^verbatim>\<open>r\<close>, \<^verbatim>\<open>u\<close>, \<^verbatim>\<open>id\<close>, \<^verbatim>\<open>value\<close>).
\<close>

record Point =
  pt_x :: real
  pt_y :: real

record GridConfig =
  origin :: Point
  grid_u :: Point
  grid_v :: Point

record RGB =
  rgb_r :: int
  rgb_g :: int
  rgb_b :: int

record Lab =
  lab_l :: real
  lab_a :: real
  lab_b :: real

text \<open>A JavaScript string, as its UTF-16 code units.\<close>

type_synonym js_string = "nat list"

record WellResult =
  well_id :: js_string
  row :: nat
  col :: nat
  center :: Point
  avgColor :: RGB
  intensity :: real
  viability :: real

record IC50Result =
  ic50_value :: real
  ic50_units :: js_string

record AnalysisOutput =
  wellResults :: "WellResult list"
  ic50 :: "IC50Result option"

text \<open>The anonymous object \<^verbatim>\<open>{ concentration, viability }\<close> of \<^verbatim>\<open>calculateIC50\<close>.\<close>

record DataPoint =
  concentration :: real
  dp_viability :: real

text \<open>Exceptions of the JavaScript runtime and of the canvas API.\<close>

datatype js_error = TypeError | IndexSizeError | SecurityError

section \<open>Dose-response: the IC50 estimator\<close>

text \<open>
  \<^verbatim>\<open>viabilitiesByRow\<close>: \<^verbatim>\<open>Array.from({ length: rowCount }, () => [])\<close>, then every well
  whose row is below \<^verbatim>\<open>rowCount\<close> pushes its viability onto its row's array.
\<close>

definition pushViability :: "nat \<Rightarrow> real list list \<Rightarrow> WellResult \<Rightarrow> real list list" where
  "pushViability rowCount rows well =
     (if row well < rowCount then rows[row well := rows ! row well @ [viability well]]
      else rows)"

definition viabilitiesByRow :: "WellResult list \<Rightarrow> nat \<Rightarrow> real list list" where
  "viabilitiesByRow wells rowCount =
     foldl (pushViability rowCount) (replicate rowCount []) wells"

text \<open>
  The callback of \<^verbatim>\<open>rowConcentrations.map\<close>. The test
  \<^verbatim>\<open>concentration <= 0 || viabilitiesByRow[rowIndex]?.length === 0\<close> is false for a
  positive concentration at an index with no row array (\<^verbatim>\<open>undefined === 0\<close>), and then
  \<^verbatim>\<open>viabilities.reduce\<close> on \<^verbatim>\<open>undefined\<close> throws a \<^verbatim>\<open>TypeError\<close>.
\<close>

definition rowPoint :: "real list list \<Rightarrow> real \<Rightarrow> nat \<Rightarrow> js_error + DataPoint option" where
  "rowPoint byRow c rowIndex =
     (if c \<le> 0 \<or> (rowIndex < length byRow \<and> length (byRow ! rowIndex) = 0) then Inr None
      else if \<not> rowIndex < length byRow then Inl TypeError
      else let viabilities = byRow ! rowIndex;
               avgViability = foldl (+) 0 viabilities / real (length viabilities)
           in Inr (Some \<lparr>concentration = c, dp_viability = avgViability\<rparr>))"

fun mapRows :: "real list list \<Rightarrow> real list \<Rightarrow> nat \<Rightarrow> js_error + DataPoint option list" where
  "mapRows byRow [] rowIndex = Inr []"
| "mapRows byRow (c # cs) rowIndex =
     (case rowPoint byRow c rowIndex of
        Inl e \<Rightarrow> Inl e
      | Inr p \<Rightarrow> (case mapRows byRow cs (Suc rowIndex) of
                   Inl e \<Rightarrow> Inl e
                 | Inr ps \<Rightarrow> Inr (p # ps)))"

text \<open>
  \<^verbatim>\<open>.filter(p => p !== null).sort((a, b) => a.concentration - b.concentration)\<close>:
  \<^verbatim>\<open>Array.prototype.sort\<close> is stable, as the insertion sort \<^const>\<open>sort_key\<close> is.
\<close>

definition dataPointsOf :: "DataPoint option list \<Rightarrow> DataPoint list" where
  "dataPointsOf ps = sort_key concentration (List.map_filter (\<lambda>p. p) ps)"

definition crosses50 :: "DataPoint \<Rightarrow> DataPoint \<Rightarrow> bool" where
  "crosses50 currentPoint nextPoint \<longleftrightarrow>
     (dp_viability currentPoint \<ge> 50 \<and> dp_viability nextPoint < 50) \<or>
     (dp_viability currentPoint < 50 \<and> dp_viability nextPoint \<ge> 50)"

definition orderPair :: "DataPoint \<Rightarrow> DataPoint \<Rightarrow> DataPoint \<times> DataPoint" where
  "orderPair currentPoint nextPoint =
     (if dp_viability currentPoint < dp_viability nextPoint then (currentPoint, nextPoint)
      else (nextPoint, currentPoint))"

text \<open>The loop \<^verbatim>\<open>for (let i = 0; i < dataPoints.length - 1; i++)\<close> with its \<^verbatim>\<open>break\<close>.\<close>

function crossingLoop :: "DataPoint list \<Rightarrow> nat \<Rightarrow> (DataPoint \<times> DataPoint) option" where
  "crossingLoop dataPoints i =
     (if i < length dataPoints - 1 then
        (if crosses50 (dataPoints ! i) (dataPoints ! (i + 1))
         then Some (orderPair (dataPoints ! i) (dataPoints ! (i + 1)))
         else crossingLoop dataPoints (i + 1))
      else None)"
  by pat_completeness auto
termination
  by (relation "measure (\<lambda>(dataPoints, i). length dataPoints - i)") auto

declare crossingLoop.simps [simp del]

definition interpolate :: "DataPoint \<Rightarrow> DataPoint \<Rightarrow> real" where
  "interpolate p1 p2 =
     concentration p1 +
       (50 - dp_viability p1) * (concentration p2 - concentration p1) /
         (dp_viability p2 - dp_viability p1)"

definition calculateIC50 ::
  "WellResult list \<Rightarrow> real list \<Rightarrow> nat \<Rightarrow> js_string \<Rightarrow> js_error + IC50Result option" where
  "calculateIC50 wells rowConcentrations rowCount units =
     (if length (filter (\<lambda>c. c > 0) rowConcentrations) < 2 then Inr None
      else case mapRows (viabilitiesByRow wells rowCount) rowConcentrations 0 of
        Inl e \<Rightarrow> Inl e
      | Inr ps \<Rightarrow>
          let dataPoints = dataPointsOf ps in
          if length dataPoints < 2 then Inr None
          else case crossingLoop dataPoints 0 of
            None \<Rightarrow> Inr None
          | Some (p1, p2) \<Rightarrow>
              if \<bar>dp_viability p2 - dp_viability p1\<bar> < 1 / 1000000 then Inr None
              else Inr (Some \<lparr>ic50_value = interpolate p1 p2, ic50_units = units\<rparr>))"


section \<open>Color space converter\<close>

text \<open>
  \<^verbatim>\<open>Math.pow(b, e)\<close> with a positive base is \<^term>\<open>b powr e\<close>; the integer powers
  \<^verbatim>\<open>Math.pow(t, 3)\<close> and \<^verbatim>\<open>Math.pow(d, 2)\<close> are written with \<open>^\<close>.
  \<^verbatim>\<open>Math.round\<close> rounds halves up.
\<close>

definition js_round :: "real \<Rightarrow> int" where
  "js_round t = \<lfloor>t + 1 / 2\<rfloor>"

text \<open>The ternary of lines 24 to 26 of the source, the same for the three channels.\<close>

definition linearize :: "real \<Rightarrow> real" where
  "linearize c = (if c > 0.04045 then ((c + 0.055) / 1.055) powr 2.4 else c / 12.92)"

definition lab_f :: "real \<Rightarrow> real" where
  "lab_f t = (if t > 0.008856 then t powr (1 / 3) else (7.787 * t) + (16 / 116))"

definition rgbToLab :: "RGB \<Rightarrow> Lab" where
  "rgbToLab rgb =
     (let r = linearize (real_of_int (rgb_r rgb) / 255);
          g = linearize (real_of_int (rgb_g rgb) / 255);
          b = linearize (real_of_int (rgb_b rgb) / 255);
          x = r * 0.4124564 + g * 0.3575761 + b * 0.1804375;
          y = r * 0.2126729 + g * 0.7151522 + b * 0.0721750;
          z = r * 0.0193339 + g * 0.1191920 + b * 0.9503041;
          varX = lab_f (x / 0.95047);
          varY = lab_f (y / 1.00000);
          varZ = lab_f (z / 1.08883)
      in \<lparr>lab_l = (116 * varY) - 16, lab_a = 500 * (varX - varY),
          lab_b = 200 * (varY - varZ)\<rparr>)"

definition f_inv :: "real \<Rightarrow> real" where
  "f_inv t = (if t > 0.206897 then t ^ 3 else (t - 16 / 116) / 7.787)"

definition toSrgb :: "real \<Rightarrow> real" where
  "toSrgb c = (if c > 0.0031308 then 1.055 * c powr (1 / 2.4) - 0.055 else 12.92 * c)"

definition clamp :: "real \<Rightarrow> int" where
  "clamp val = max 0 (min 255 (js_round (val * 255)))"

definition labToRgb :: "Lab \<Rightarrow> RGB" where
  "labToRgb lab =
     (let y = (lab_l lab + 16) / 116;
          x = lab_a lab / 500 + y;
          z = y - lab_b lab / 200;
          x = f_inv x * 0.95047;
          y = f_inv y * 1.00000;
          z = f_inv z * 1.08883;
          r = x * 3.2404542 + y * - 1.5371385 + z * - 0.4985314;
          g = x * - 0.9692660 + y * 1.8760108 + z * 0.0415560;
          b = x * 0.0556434 + y * - 0.2040259 + z * 1.0572252
      in \<lparr>rgb_r = clamp (toSrgb r), rgb_g = clamp (toSrgb g), rgb_b = clamp (toSrgb b)\<rparr>)"

section \<open>Pixel sampler\<close>

text \<open>
  The canvas after \<^verbatim>\<open>drawImage\<close>: its size, its bitmap (red, green, blue, alpha of the
  pixel in column \<open>x\<close> and row \<open>y\<close>) and its origin-clean flag.
\<close>

record Canvas =
  canvas_width :: nat
  canvas_height :: nat
  bitmap :: "nat \<Rightarrow> nat \<Rightarrow> 8 word \<times> 8 word \<times> 8 word \<times> 8 word"
  origin_clean :: bool

definition inBounds :: "Canvas \<Rightarrow> int \<Rightarrow> int \<Rightarrow> bool" where
  "inBounds ctx px py \<longleftrightarrow>
     0 \<le> px \<and> px < int (canvas_width ctx) \<and> 0 \<le> py \<and> py < int (canvas_height ctx)"

text \<open>
  \<^verbatim>\<open>CanvasRenderingContext2D.getImageData(sx, sy, sw, sh)\<close> is the browser's, not the
  repository's; it is modelled after the HTML standard for the positive sizes the sampler
  asks for. The four arguments are \<^verbatim>\<open>[EnforceRange] long\<close> (a \<^verbatim>\<open>TypeError\<close> outside
  the 32-bit range), a zero size is an \<^verbatim>\<open>IndexSizeError\<close>, a canvas that is not
  origin-clean a \<^verbatim>\<open>SecurityError\<close>. Otherwise the result holds four bytes for every
  pixel of the rectangle, row by row, and a pixel outside the canvas is transparent black.
  Running out of memory on a huge rectangle is not modelled.
\<close>

definition pixelBytes :: "Canvas \<Rightarrow> int \<Rightarrow> int \<Rightarrow> 8 word list" where
  "pixelBytes ctx px py =
     (if inBounds ctx px py
      then (case bitmap ctx (nat px) (nat py) of (r, g, b, a) \<Rightarrow> [r, g, b, a])
      else [0, 0, 0, 0])"

definition isLong :: "int \<Rightarrow> bool" where
  "isLong n \<longleftrightarrow> - (2 ^ 31) \<le> n \<and> n \<le> 2 ^ 31 - 1"

definition getImageData :: "Canvas \<Rightarrow> int \<Rightarrow> int \<Rightarrow> int \<Rightarrow> int \<Rightarrow> js_error + 8 word list" where
  "getImageData ctx sx sy sw sh =
     (if \<not> (isLong sx \<and> isLong sy \<and> isLong sw \<and> isLong sh) then Inl TypeError
      else if sw = 0 \<or> sh = 0 then Inl IndexSizeError
      else if \<not> origin_clean ctx then Inl SecurityError
      else Inr (concat (map (\<lambda>k. pixelBytes ctx (sx + int (k mod nat sw)) (sy + int (k div nat sw)))
                  [0..<nat sw * nat sh])))"

text \<open>
  The loop \<^verbatim>\<open>for (let i = 0; i < data.length; i += 4)\<close> of \<^verbatim>\<open>getPixelData\<close>;
  \<open>i\<close> is a multiple of four, so \<^verbatim>\<open>i / 4\<close> is \<^term>\<open>i div 4\<close>.
\<close>

function pixelLoop :: "8 word list \<Rightarrow> int \<Rightarrow> nat \<Rightarrow> RGB list \<Rightarrow> RGB list" where
  "pixelLoop data radius i pixels =
     (if i < length data then
        (let px = int (i div 4) mod (radius * 2);
             py = int (i div 4) div (radius * 2);
             dist = sqrt (real_of_int ((px - radius) ^ 2 + (py - radius) ^ 2))
         in pixelLoop data radius (i + 4)
              (if dist \<le> real_of_int radius
               then pixels @ [\<lparr>rgb_r = uint (data ! i), rgb_g = uint (data ! (i + 1)),
                               rgb_b = uint (data ! (i + 2))\<rparr>]
               else pixels))
      else pixels)"
  by pat_completeness auto
termination
  by (relation "measure (\<lambda>(data, radius, i, pixels). length data - i)") auto

declare pixelLoop.simps [simp del]

text \<open>
  \<^verbatim>\<open>getPixelData\<close>: only \<^verbatim>\<open>getImageData\<close> can throw inside the \<^verbatim>\<open>try\<close>, before any
  pixel is pushed; the \<^verbatim>\<open>catch\<close> logs and the empty array is returned.
\<close>

definition getPixelData :: "Canvas \<Rightarrow> real \<Rightarrow> real \<Rightarrow> real \<Rightarrow> RGB list" where
  "getPixelData ctx x y radius0 =
     (let radius = max 1 (js_round radius0)
      in case getImageData ctx (js_round (x - real_of_int radius))
                (js_round (y - real_of_int radius)) (radius * 2) (radius * 2) of
           Inl e \<Rightarrow> []
         | Inr data \<Rightarrow> pixelLoop data radius 0 [])"

section \<open>Robust color estimator\<close>

text \<open>
  The three sorted channel arrays have one length, and the source takes \<^verbatim>\<open>mid\<close> from
  \<^verbatim>\<open>l_values\<close> for all of them.
\<close>

definition getRobustAverageColor :: "RGB list \<Rightarrow> RGB" where
  "getRobustAverageColor pixels =
     (if length pixels = 0 then \<lparr>rgb_r = 0, rgb_g = 0, rgb_b = 0\<rparr>
      else if length pixels = 1 then pixels ! 0
      else
        let labPixels = map rgbToLab pixels;
            l_values = sort (map lab_l labPixels);
            a_values = sort (map lab_a labPixels);
            b_values = sort (map lab_b labPixels);
            mid = length l_values div 2;
            medianL = (if length l_values mod 2 = 0
                       then (l_values ! (mid - 1) + l_values ! mid) / 2 else l_values ! mid);
            medianA = (if length a_values mod 2 = 0
                       then (a_values ! (mid - 1) + a_values ! mid) / 2 else a_values ! mid);
            medianB = (if length b_values mod 2 = 0
                       then (b_values ! (mid - 1) + b_values ! mid) / 2 else b_values ! mid)
        in labToRgb \<lparr>lab_l = medianL, lab_a = medianA, lab_b = medianB\<rparr>)"

section \<open>Plate analyzer\<close>

text \<open>
  \<^verbatim>\<open>String.fromCharCode\<close> takes its argument modulo \<open>2^16\<close>; the template literal
  writes \<^verbatim>\<open>col + 1\<close> in decimal (a positive integer below \<open>10^21\<close>).
\<close>

definition fromCharCode :: "nat \<Rightarrow> js_string" where
  "fromCharCode n = [n mod 65536]"

function numberToString :: "nat \<Rightarrow> js_string" where
  "numberToString n =
     (if n < 10 then [48 + n] else numberToString (n div 10) @ [48 + n mod 10])"
  by pat_completeness auto
termination
  by (relation "measure (\<lambda>n. n)") auto

declare numberToString.simps [simp del]

definition hypot :: "real \<Rightarrow> real \<Rightarrow> real" where
  "hypot a b = sqrt (a ^ 2 + b ^ 2)"

definition WELL_RADIUS_FACTOR :: real where
  "WELL_RADIUS_FACTOR = 0.30"

definition wellRadius :: "GridConfig \<Rightarrow> real" where
  "wellRadius gridConfig =
     (let u_mag = hypot (pt_x (grid_u gridConfig)) (pt_y (grid_u gridConfig));
          v_mag = hypot (pt_x (grid_v gridConfig)) (pt_y (grid_v gridConfig))
      in min u_mag v_mag * WELL_RADIUS_FACTOR)"

definition gradientVectorOf :: "Lab \<Rightarrow> Lab \<Rightarrow> Lab" where
  "gradientVectorOf labMin labMax =
     \<lparr>lab_l = lab_l labMax - lab_l labMin, lab_a = lab_a labMax - lab_a labMin,
      lab_b = lab_b labMax - lab_b labMin\<rparr>"

definition magSq :: "Lab \<Rightarrow> real" where
  "magSq gradientVector =
     lab_l gradientVector ^ 2 + lab_a gradientVector ^ 2 + lab_b gradientVector ^ 2"

text \<open>The body of the inner loop, lines 256 to 287 of the source.\<close>

definition analyzeWell ::
  "Canvas \<Rightarrow> GridConfig \<Rightarrow> real \<Rightarrow> Lab \<Rightarrow> Lab \<Rightarrow> real \<Rightarrow> nat \<Rightarrow> nat \<Rightarrow> WellResult" where
  "analyzeWell ctx gridConfig radius labMin gradientVector gradientMagSq rw cl =
     (let centerX = pt_x (origin gridConfig) + real cl * pt_x (grid_u gridConfig)
                      + real rw * pt_x (grid_v gridConfig);
          centerY = pt_y (origin gridConfig) + real cl * pt_y (grid_u gridConfig)
                      + real rw * pt_y (grid_v gridConfig);
          pixels = getPixelData ctx centerX centerY radius;
          avg = getRobustAverageColor pixels;
          (intens, viab) =
            (if length pixels > 0 \<and> gradientMagSq > 1 / 1000000 then
               (let labWell = rgbToLab avg;
                    wellVector = \<lparr>lab_l = lab_l labWell - lab_l labMin,
                                  lab_a = lab_a labWell - lab_a labMin,
                                  lab_b = lab_b labWell - lab_b labMin\<rparr>;
                    dotProduct = (lab_l wellVector * lab_l gradientVector)
                               + (lab_a wellVector * lab_a gradientVector)
                               + (lab_b wellVector * lab_b gradientVector);
                    intens = max 0 (min 1 (dotProduct / gradientMagSq))
                in (intens, intens * 100))
             else (0, 0))
      in \<lparr>well_id = fromCharCode (65 + rw) @ numberToString (cl + 1), row = rw, col = cl,
          center = \<lparr>pt_x = centerX, pt_y = centerY\<rparr>, avgColor = avg,
          intensity = intens, viability = viab\<rparr>)"

text \<open>The two nested \<^verbatim>\<open>for\<close> loops, pushing onto \<^verbatim>\<open>results\<close>.\<close>

definition colLoop :: "(nat \<Rightarrow> nat \<Rightarrow> WellResult) \<Rightarrow> nat \<Rightarrow> nat \<Rightarrow> WellResult list \<Rightarrow> WellResult list" where
  "colLoop body colCount rw results =
     foldl (\<lambda>results cl. results @ [body rw cl]) results [0..<colCount]"

definition rowLoop :: "(nat \<Rightarrow> nat \<Rightarrow> WellResult) \<Rightarrow> nat \<Rightarrow> nat \<Rightarrow> WellResult list" where
  "rowLoop body rowCount colCount =
     foldl (\<lambda>results rw. colLoop body colCount rw results) [] [0..<rowCount]"

definition radiusError :: string where
  "radiusError = ''Could not determine a valid well radius. Check grid selection and dimensions.''"

definition referenceError :: string where
  "referenceError =
     ''Could not sample reference colors. Please ensure calibration points are inside wells.''"

text \<open>
  How the promise of \<^verbatim>\<open>processWellPlate\<close> ends: resolved, rejected with an
  \<^verbatim>\<open>Error\<close> of the given message, or an exception thrown inside the \<^verbatim>\<open>onload\<close>
  handler, which nothing catches and which leaves the promise pending.
\<close>

datatype outcome = Resolved AnalysisOutput | Rejected string | Uncaught js_error

text \<open>
  \<^verbatim>\<open>processWellPlate\<close> from the point where the image is decoded and drawn on the
  canvas \<open>ctx\<close>; an image that does not load, or a missing 2D context, rejects the promise
  before that point. The test \<^verbatim>\<open>radius === 0 || !isFinite(radius)\<close> is \<open>radius = 0\<close>
  for a real.
\<close>

definition processWellPlate ::
  "Canvas \<Rightarrow> GridConfig \<Rightarrow> nat \<Rightarrow> nat \<Rightarrow> Point \<Rightarrow> Point \<Rightarrow> real list \<Rightarrow> js_string \<Rightarrow> outcome" where
  "processWellPlate ctx gridConfig rowCount colCount controlNegativePoint controlPositivePoint
      rowConcentrations concentrationUnits =
     (let radius = wellRadius gridConfig in
      if radius = 0 then Rejected radiusError
      else
        let minColorPixels = getPixelData ctx (pt_x controlNegativePoint)
                               (pt_y controlNegativePoint) radius;
            maxColorPixels = getPixelData ctx (pt_x controlPositivePoint)
                               (pt_y controlPositivePoint) radius
        in if length minColorPixels = 0 \<or> length maxColorPixels = 0
           then Rejected referenceError
           else
             let labMin = rgbToLab (getRobustAverageColor minColorPixels);
                 labMax = rgbToLab (getRobustAverageColor maxColorPixels);
                 gradientVector = gradientVectorOf labMin labMax;
                 gradientMagSq = magSq gradientVector;
                 results = rowLoop (analyzeWell ctx gridConfig radius labMin gradientVector
                                      gradientMagSq) rowCount colCount
             in (case calculateIC50 results rowConcentrations rowCount concentrationUnits of
                   Inl e \<Rightarrow> Uncaught e
                 | Inr result \<Rightarrow> Resolved \<lparr>wellResults = results, ic50 = result\<rparr>))"

section \<open>The dose series as the specification words it\<close>

text \<open>
  The specification groups the well viabilities by row, takes the mean of every row that
  has a positive concentration and at least one well, and sorts the pairs by
  concentration. These definitions follow those words; the estimator's own data points
  are compared with them below.
\<close>

definition rowViabilities :: "WellResult list \<Rightarrow> nat \<Rightarrow> real list" where
  "rowViabilities wells i = map viability (filter (\<lambda>w. row w = i) wells)"

definition rowMean :: "WellResult list \<Rightarrow> nat \<Rightarrow> real" where
  "rowMean wells i = sum_list (rowViabilities wells i) / real (length (rowViabilities wells i))"

definition seriesPoint :: "WellResult list \<Rightarrow> nat \<times> real \<Rightarrow> DataPoint list" where
  "seriesPoint wells ic =
     (if 0 < snd ic \<and> rowViabilities wells (fst ic) \<noteq> []
      then [\<lparr>concentration = snd ic, dp_viability = rowMean wells (fst ic)\<rparr>] else [])"

definition doseSeries :: "WellResult list \<Rightarrow> real list \<Rightarrow> DataPoint list" where
  "doseSeries wells rcs =
     sort_key concentration (concat (map (seriesPoint wells) (enumerate 0 rcs)))"

text \<open>The first adjacent pair of the series whose viabilities lie on both sides of 50.\<close>

definition firstCrossingAt :: "DataPoint list \<Rightarrow> nat \<Rightarrow> bool" where
  "firstCrossingAt ds k \<longleftrightarrow>
     k + 1 < length ds \<and> crosses50 (ds ! k) (ds ! (k + 1)) \<and>
     (\<forall>j<k. \<not> crosses50 (ds ! j) (ds ! (j + 1)))"

text \<open>Every positive concentration stands at the index of a row of the plate.\<close>

definition rowsCovered :: "real list \<Rightarrow> nat \<Rightarrow> bool" where
  "rowsCovered rcs n \<longleftrightarrow> list_all (\<lambda>ic. 0 < snd ic \<longrightarrow> fst ic < n) (enumerate 0 rcs)"

text \<open>A plate of four rows whose mean viabilities are 90, 60, 40 and 10.\<close>

definition exampleWell :: "nat \<Rightarrow> real \<Rightarrow> WellResult" where
  "exampleWell r v =
     \<lparr>well_id = [], row = r, col = 0, center = \<lparr>pt_x = 0, pt_y = 0\<rparr>,
      avgColor = \<lparr>rgb_r = 0, rgb_g = 0, rgb_b = 0\<rparr>, intensity = v / 100, viability = v\<rparr>"

definition exampleWells :: "WellResult list" where
  "exampleWells = [exampleWell 0 85, exampleWell 0 95, exampleWell 1 60, exampleWell 2 40,
     exampleWell 3 10]"

section \<open>The sampler's result, and the sampler as the specification words it\<close>

text \<open>The color of a canvas pixel as \<^verbatim>\<open>getImageData\<close> reports it: black outside the canvas.\<close>

definition black :: RGB where
  "black = \<lparr>rgb_r = 0, rgb_g = 0, rgb_b = 0\<rparr>"

definition rgbAt :: "Canvas \<Rightarrow> int \<Rightarrow> int \<Rightarrow> RGB" where
  "rgbAt ctx px py =
     (if inBounds ctx px py
      then (case bitmap ctx (nat px) (nat py) of
              (r, g, b, a) \<Rightarrow> \<lparr>rgb_r = uint r, rgb_g = uint g, rgb_b = uint b\<rparr>)
      else black)"

text \<open>
  The offsets \<open>(px, py)\<close> in a square of \<open>2r\<close> by \<open>2r\<close> pixels, row by row, that lie
  within distance \<open>r\<close> of the offset \<open>(r, r)\<close>.
\<close>

definition inDisk :: "int \<Rightarrow> int \<Rightarrow> int \<Rightarrow> bool" where
  "inDisk r px py \<longleftrightarrow> (px - r) ^ 2 + (py - r) ^ 2 \<le> r ^ 2"

definition diskOffsets :: "int \<Rightarrow> (int \<times> int) list" where
  "diskOffsets r =
     concat (map (\<lambda>py. concat (map (\<lambda>px. if inDisk r (int px) (int py) then [(int px, int py)] else [])
                                  [0..<nat (2 * r)]))
               [0..<nat (2 * r)])"

text \<open>The read of the square succeeds.\<close>

definition readable :: "Canvas \<Rightarrow> int \<Rightarrow> int \<Rightarrow> int \<Rightarrow> bool" where
  "readable ctx sx sy sw \<longleftrightarrow> isLong sx \<and> isLong sy \<and> isLong sw \<and> origin_clean ctx"

text \<open>The loop's mask at the pixel of index \<open>j\<close>, and the pixel it pushes.\<close>

definition maskAt :: "int \<Rightarrow> nat \<Rightarrow> bool" where
  "maskAt radius j \<longleftrightarrow>
     sqrt (real_of_int ((int j mod (radius * 2) - radius) ^ 2 + (int j div (radius * 2) - radius) ^ 2))
       \<le> real_of_int radius"

definition rgbOf :: "8 word list \<Rightarrow> nat \<Rightarrow> RGB" where
  "rgbOf data j = \<lparr>rgb_r = uint (data ! (4 * j)), rgb_g = uint (data ! (4 * j + 1)),
                    rgb_b = uint (data ! (4 * j + 2))\<rparr>"

text \<open>No pixel of the disk lies inside the image.\<close>

definition squareOutside :: "Canvas \<Rightarrow> int \<Rightarrow> int \<Rightarrow> int \<Rightarrow> bool" where
  "squareOutside ctx sx sy r \<longleftrightarrow>
     list_all (\<lambda>(px, py). \<not> inBounds ctx (sx + px) (sy + py)) (diskOffsets r)"

text \<open>
  The sampler of the specification: the radius floored (at least 1), the in-bounds pixels
  of the square from \<open>center - radius\<close> to \<open>center + radius\<close> within distance
  \<open>radius\<close> of the center.
\<close>

definition sampleSpec :: "Canvas \<Rightarrow> real \<Rightarrow> real \<Rightarrow> real \<Rightarrow> RGB list" where
  "sampleSpec ctx x y radius0 =
     (let radius = max 1 \<lfloor>radius0\<rfloor>
      in concat (map (\<lambda>py. concat (map (\<lambda>px.
           if inBounds ctx px py \<and>
              (real_of_int px - x) ^ 2 + (real_of_int py - y) ^ 2 \<le> (real_of_int radius) ^ 2
           then [rgbAt ctx px py] else [])
           [\<lceil>x - real_of_int radius\<rceil>..\<lfloor>x + real_of_int radius\<rfloor>]))
           [\<lceil>y - real_of_int radius\<rceil>..\<lfloor>y + real_of_int radius\<rfloor>]))"

text \<open>
  A canvas of five by five pixels whose pixel in column \<open>x\<close> and row \<open>y\<close> has red
  \<open>x\<close> and green \<open>y\<close>, and a canvas of one white pixel.
\<close>

definition demoCanvas :: Canvas where
  "demoCanvas = \<lparr>canvas_width = 5, canvas_height = 5,
      bitmap = (\<lambda>x y. (of_nat x, of_nat y, 0, 255)), origin_clean = True\<rparr>"

definition tinyCanvas :: Canvas where
  "tinyCanvas = \<lparr>canvas_width = 1, canvas_height = 1,
      bitmap = (\<lambda>x y. (255, 255, 255, 255)), origin_clean = True\<rparr>"

section \<open>The median as the specification words it\<close>

text \<open>
  The \<open>k\<close>-th smallest element of a list, counted from one, and the median: the central
  order statistic, or for an even count the average of the two central ones.
\<close>

definition orderStat :: "real list \<Rightarrow> nat \<Rightarrow> real" where
  "orderStat xs k = sort xs ! (k - 1)"

definition medianSpec :: "real list \<Rightarrow> real" where
  "medianSpec xs =
     (let n = length xs
      in if even n then (orderStat xs (n div 2) + orderStat xs (n div 2 + 1)) / 2
         else orderStat xs ((n + 1) div 2))"

text \<open>Two close pixels and one blown-out pixel.\<close>

definition demoPixels :: "RGB list" where
  "demoPixels = [\<lparr>rgb_r = 10, rgb_g = 200, rgb_b = 30\<rparr>, \<lparr>rgb_r = 12, rgb_g = 190, rgb_b = 35\<rparr>,
     \<lparr>rgb_r = 255, rgb_g = 255, rgb_b = 255\<rparr>]"

section \<open>The analyzer's parts, named\<close>

text \<open>The center of a well, as the specification gives it: \<open>origin + col * u + row * v\<close>.\<close>

definition gridCenter :: "GridConfig \<Rightarrow> nat \<Rightarrow> nat \<Rightarrow> Point" where
  "gridCenter g rw cl =
     \<lparr>pt_x = pt_x (origin g) + real cl * pt_x (grid_u g) + real rw * pt_x (grid_v g),
      pt_y = pt_y (origin g) + real cl * pt_y (grid_u g) + real rw * pt_y (grid_v g)\<rparr>"

text \<open>The label of a well as the template literal builds it.\<close>

definition wellLabel :: "nat \<Rightarrow> nat \<Rightarrow> js_string" where
  "wellLabel rw cl = fromCharCode (65 + rw) @ numberToString (cl + 1)"

text \<open>The number a string of decimal digits stands for, and the code units of the digits.\<close>

definition decimalValue :: "js_string \<Rightarrow> nat" where
  "decimalValue s = foldl (\<lambda>a d. 10 * a + (d - 48)) 0 s"

definition isDigit :: "nat \<Rightarrow> bool" where
  "isDigit d \<longleftrightarrow> 48 \<le> d \<and> d \<le> 57"

text \<open>
  The Lab color of a reference point, the squared magnitude of the gradient between the
  two references, and the list of well results the two loops build: the values that
  \<^const>\<open>processWellPlate\<close> binds to \<^verbatim>\<open>labMin\<close>, \<^verbatim>\<open>gradientMagSq\<close> and \<^verbatim>\<open>results\<close>.
\<close>

definition referenceLab :: "Canvas \<Rightarrow> Point \<Rightarrow> real \<Rightarrow> Lab" where
  "referenceLab ctx p radius =
     rgbToLab (getRobustAverageColor (getPixelData ctx (pt_x p) (pt_y p) radius))"

definition calibrationMagSq :: "Canvas \<Rightarrow> Point \<Rightarrow> Point \<Rightarrow> real \<Rightarrow> real" where
  "calibrationMagSq ctx neg pos radius =
     magSq (gradientVectorOf (referenceLab ctx neg radius) (referenceLab ctx pos radius))"

definition plateWells ::
  "Canvas \<Rightarrow> GridConfig \<Rightarrow> nat \<Rightarrow> nat \<Rightarrow> Point \<Rightarrow> Point \<Rightarrow> WellResult list" where
  "plateWells ctx g rowCount colCount neg pos =
     rowLoop (analyzeWell ctx g (wellRadius g) (referenceLab ctx neg (wellRadius g))
                (gradientVectorOf (referenceLab ctx neg (wellRadius g))
                   (referenceLab ctx pos (wellRadius g)))
                (calibrationMagSq ctx neg pos (wellRadius g))) rowCount colCount"

text \<open>The code units of the capital letters \<open>A\<close> to \<open>Z\<close>.\<close>

definition isCapitalLetter :: "nat \<Rightarrow> bool" where
  "isCapitalLetter n \<longleftrightarrow> 65 \<le> n \<and> n \<le> 90"

text \<open>The well results of a resolved analysis; none when the promise is not resolved.\<close>

definition resolvedWells :: "outcome \<Rightarrow> WellResult list" where
  "resolvedWells result = (case result of Resolved out \<Rightarrow> wellResults out | _ \<Rightarrow> [])"

text \<open>A grid with steps of ten pixels along the axes, and a point inside the small canvas.\<close>

definition demoGrid :: GridConfig where
  "demoGrid = \<lparr>origin = \<lparr>pt_x = 0, pt_y = 0\<rparr>, grid_u = \<lparr>pt_x = 10, pt_y = 0\<rparr>,
                grid_v = \<lparr>pt_x = 0, pt_y = 10\<rparr>\<rparr>"

definition demoPoint :: Point where
  "demoPoint = \<lparr>pt_x = 2, pt_y = 2\<rparr>"
section \<open>The IC50 estimator in binary64 arithmetic\<close>

text \<open>
  A \<^verbatim>\<open>number\<close> of the source is an IEEE 754 binary64 value, and every arithmetic
  operation on it is rounded to the nearest such value, ties to the even significand. The
  estimator above computes on exact reals; this section embeds \<^verbatim>\<open>calculateIC50\<close> a
  second time, with the rounding of line 153 (the row mean) and of lines 187 and 189 (the
  interpolation) written out, so that a statement on the value the code returns can be
  settled for the doubles themselves.
\<close>

subsection \<open>Rounding to the nearest double\<close>

text \<open>The nearest integer, a tie going to the even one.\<close>

definition roundEven :: "real \<Rightarrow> int" where
  "roundEven t =
     (let f = \<lfloor>t\<rfloor>; r = t - of_int f
      in if r < 1 / 2 then f else if 1 / 2 < r then f + 1 else if even f then f else f + 1)"

text \<open>The number of binary digits of a positive integer, 0 for the others.\<close>

function bitLength :: "int \<Rightarrow> nat" where
  "bitLength n = (if n \<le> 0 then 0 else Suc (bitLength (n div 2)))"
  by pat_completeness auto
termination
  by (relation "measure nat") auto

declare bitLength.simps [simp del]

text \<open>
  Every finite double is an integer multiple of \<open>2\<^sup>-\<^sup>1\<^sup>0\<^sup>7\<^sup>4\<close>, the least positive
  (subnormal) double; \<^term>\<open>s\<close> below is a real counted in that unit. A significand has 53
  binary digits, so the doubles next to \<^term>\<open>s\<close> are the multiples of \<open>2\<^sup>e\<close> where
  \<open>e\<close> is the number of digits of the integer part of \<open>\<bar>s\<bar>\<close> beyond 53, and 0 in the
  subnormal range and the first binade.
\<close>

definition ulpExponent :: "real \<Rightarrow> nat" where
  "ulpExponent s = bitLength \<lfloor>\<bar>s\<bar>\<rfloor> - 53"

definition roundScaled :: "real \<Rightarrow> real" where
  "roundScaled s = of_int (roundEven (s / 2 ^ ulpExponent s)) * 2 ^ ulpExponent s"

definition grid :: real where
  "grid = 2 ^ 1074"

text \<open>
  Rounding to nearest, ties to even, with no bound on the exponent from above; the
  overflow to an infinity is decided by \<open>toDouble\<close> below.
\<close>

definition round64 :: "real \<Rightarrow> real" where
  "round64 x = roundScaled (x * grid) / grid"

text \<open>The finite doubles: the reals that rounding leaves alone, below \<open>2\<^sup>1\<^sup>0\<^sup>2\<^sup>4\<close>.\<close>

definition isDouble :: "real \<Rightarrow> bool" where
  "isDouble x \<longleftrightarrow> round64 x = x \<and> \<bar>x\<bar> < 2 ^ 1024"

subsection \<open>Double values and their arithmetic\<close>

text \<open>
  A double is finite, an infinity or \<^verbatim>\<open>NaN\<close>. The two zeros of IEEE 754 are one value
  here, \<^term>\<open>Finite 0\<close>: they differ only as a divisor and in \<^verbatim>\<open>Object.is\<close>, and the
  estimator divides by the length of a non-empty array and by a difference that has passed
  the test of line 187, never by a zero.
\<close>

datatype double = Finite real | PosInf | NegInf | NaN

text \<open>
  The double an exact result is rounded to: an infinity when the rounded magnitude reaches
  \<open>2\<^sup>1\<^sup>0\<^sup>2\<^sup>4\<close>.
\<close>

definition toDouble :: "real \<Rightarrow> double" where
  "toDouble x =
     (if 2 ^ 1024 \<le> \<bar>round64 x\<bar> then (if 0 < x then PosInf else NegInf)
      else Finite (round64 x))"

definition infinity :: "bool \<Rightarrow> double" where
  "infinity negative = (if negative then NegInf else PosInf)"

fun negative :: "double \<Rightarrow> bool" where
  "negative (Finite x) = (x < 0)"
| "negative NegInf = True"
| "negative PosInf = False"
| "negative NaN = False"

fun neg64 :: "double \<Rightarrow> double" where
  "neg64 (Finite x) = Finite (- x)"
| "neg64 PosInf = NegInf"
| "neg64 NegInf = PosInf"
| "neg64 NaN = NaN"

text \<open>\<^verbatim>\<open>a + b\<close>.\<close>

fun add64 :: "double \<Rightarrow> double \<Rightarrow> double" where
  "add64 (Finite x) (Finite y) = toDouble (x + y)"
| "add64 NaN b = NaN"
| "add64 a NaN = NaN"
| "add64 PosInf NegInf = NaN"
| "add64 NegInf PosInf = NaN"
| "add64 PosInf b = PosInf"
| "add64 a PosInf = PosInf"
| "add64 NegInf b = NegInf"
| "add64 a NegInf = NegInf"

text \<open>\<^verbatim>\<open>a - b\<close>.\<close>

definition sub64 :: "double \<Rightarrow> double \<Rightarrow> double" where
  "sub64 a b = add64 a (neg64 b)"

text \<open>\<^verbatim>\<open>a * b\<close>: an infinity times zero is \<^verbatim>\<open>NaN\<close>.\<close>

fun mul64 :: "double \<Rightarrow> double \<Rightarrow> double" where
  "mul64 (Finite x) (Finite y) = toDouble (x * y)"
| "mul64 NaN b = NaN"
| "mul64 a NaN = NaN"
| "mul64 a b =
     (if a = Finite 0 \<or> b = Finite 0 then NaN else infinity (negative a \<noteq> negative b))"

text \<open>
  \<^verbatim>\<open>a / b\<close>. For a zero divisor the quotient is given as for \<open>+0\<close>; the estimator
  never divides by a zero.
\<close>

fun div64 :: "double \<Rightarrow> double \<Rightarrow> double" where
  "div64 (Finite x) (Finite y) =
     (if y = 0 then (if x = 0 then NaN else infinity (x < 0)) else toDouble (x / y))"
| "div64 NaN b = NaN"
| "div64 a NaN = NaN"
| "div64 (Finite x) b = Finite 0"
| "div64 a (Finite y) = infinity (negative a \<noteq> (y < 0))"
| "div64 a b = NaN"

text \<open>\<^verbatim>\<open>Math.abs(a)\<close>.\<close>

fun abs64 :: "double \<Rightarrow> double" where
  "abs64 (Finite x) = Finite \<bar>x\<bar>"
| "abs64 NaN = NaN"
| "abs64 a = PosInf"

text \<open>\<^verbatim>\<open>a < b\<close> and \<^verbatim>\<open>a >= b\<close>: both false when an operand is \<^verbatim>\<open>NaN\<close>.\<close>

fun less64 :: "double \<Rightarrow> double \<Rightarrow> bool" where
  "less64 (Finite x) (Finite y) = (x < y)"
| "less64 NaN b = False"
| "less64 a NaN = False"
| "less64 a NegInf = False"
| "less64 PosInf b = False"
| "less64 a b = True"

fun ge64 :: "double \<Rightarrow> double \<Rightarrow> bool" where
  "ge64 (Finite x) (Finite y) = (x \<ge> y)"
| "ge64 NaN b = False"
| "ge64 a NaN = False"
| "ge64 a NegInf = True"
| "ge64 PosInf b = True"
| "ge64 a b = False"

subsection \<open>The estimator\<close>

text \<open>
  The inputs are finite doubles, held as reals: the viabilities of the wells and the row
  concentrations. A row mean is computed, so it is a \<^typ>\<open>double\<close>: the sum of line 153
  can overflow.
\<close>

record DataPoint64 =
  concentration64 :: real
  viability64 :: double

text \<open>
  The callback of \<^verbatim>\<open>rowConcentrations.map\<close>, as \<^const>\<open>rowPoint\<close>, with
  \<^verbatim>\<open>viabilities.reduce((sum, v) => sum + v, 0) / viabilities.length\<close> in doubles.
\<close>

definition rowPoint64 :: "real list list \<Rightarrow> real \<Rightarrow> nat \<Rightarrow> js_error + DataPoint64 option" where
  "rowPoint64 byRow c rowIndex =
     (if c \<le> 0 \<or> (rowIndex < length byRow \<and> length (byRow ! rowIndex) = 0) then Inr None
      else if \<not> rowIndex < length byRow then Inl TypeError
      else let viabilities = byRow ! rowIndex;
               avgViability =
                 div64 (foldl (\<lambda>sum v. add64 sum (Finite v)) (Finite 0) viabilities)
                   (Finite (real (length viabilities)))
           in Inr (Some \<lparr>concentration64 = c, viability64 = avgViability\<rparr>))"

fun mapRows64 ::
  "real list list \<Rightarrow> real list \<Rightarrow> nat \<Rightarrow> js_error + DataPoint64 option list" where
  "mapRows64 byRow [] rowIndex = Inr []"
| "mapRows64 byRow (c # cs) rowIndex =
     (case rowPoint64 byRow c rowIndex of
        Inl e \<Rightarrow> Inl e
      | Inr p \<Rightarrow> (case mapRows64 byRow cs (Suc rowIndex) of
                   Inl e \<Rightarrow> Inl e
                 | Inr ps \<Rightarrow> Inr (p # ps)))"

text \<open>
  The comparator \<^verbatim>\<open>a.concentration - b.concentration\<close> of the sort has the sign of the
  exact difference: the difference of two finite doubles rounds to zero only when it is
  zero, and to an infinity of its own sign when it overflows.
\<close>

definition dataPointsOf64 :: "DataPoint64 option list \<Rightarrow> DataPoint64 list" where
  "dataPointsOf64 ps = sort_key concentration64 (List.map_filter (\<lambda>p. p) ps)"

definition crosses50_64 :: "DataPoint64 \<Rightarrow> DataPoint64 \<Rightarrow> bool" where
  "crosses50_64 currentPoint nextPoint \<longleftrightarrow>
     (ge64 (viability64 currentPoint) (Finite 50) \<and> less64 (viability64 nextPoint) (Finite 50)) \<or>
     (less64 (viability64 currentPoint) (Finite 50) \<and> ge64 (viability64 nextPoint) (Finite 50))"

definition orderPair64 :: "DataPoint64 \<Rightarrow> DataPoint64 \<Rightarrow> DataPoint64 \<times> DataPoint64" where
  "orderPair64 currentPoint nextPoint =
     (if less64 (viability64 currentPoint) (viability64 nextPoint) then (currentPoint, nextPoint)
      else (nextPoint, currentPoint))"

function crossingLoop64 :: "DataPoint64 list \<Rightarrow> nat \<Rightarrow> (DataPoint64 \<times> DataPoint64) option" where
  "crossingLoop64 dataPoints i =
     (if i < length dataPoints - 1 then
        (if crosses50_64 (dataPoints ! i) (dataPoints ! (i + 1))
         then Some (orderPair64 (dataPoints ! i) (dataPoints ! (i + 1)))
         else crossingLoop64 dataPoints (i + 1))
      else None)"
  by pat_completeness auto
termination
  by (relation "measure (\<lambda>(dataPoints, i). length dataPoints - i)") auto

declare crossingLoop64.simps [simp del]

text \<open>
  Line 189, \<^verbatim>\<open>conc1 + (50 - viability1) * (conc2 - conc1) / (viability2 - viability1)\<close>:
  five operations, each rounded, the product before the quotient.
\<close>

definition interpolate64 :: "DataPoint64 \<Rightarrow> DataPoint64 \<Rightarrow> double" where
  "interpolate64 p1 p2 =
     add64 (Finite (concentration64 p1))
       (div64
          (mul64 (sub64 (Finite 50) (viability64 p1))
             (sub64 (Finite (concentration64 p2)) (Finite (concentration64 p1))))
          (sub64 (viability64 p2) (viability64 p1)))"

text \<open>
  The literal \<^verbatim>\<open>1e-6\<close> of line 187 is the double next to \<open>10\<^sup>-\<^sup>6\<close>. Line 191 returns
  \<^verbatim>\<open>null\<close> for \<^verbatim>\<open>NaN\<close> and for the infinities.
\<close>

definition calculateIC50_64 ::
  "WellResult list \<Rightarrow> real list \<Rightarrow> nat \<Rightarrow> js_string \<Rightarrow> js_error + IC50Result option" where
  "calculateIC50_64 wells rowConcentrations rowCount units =
     (if length (filter (\<lambda>c. c > 0) rowConcentrations) < 2 then Inr None
      else case mapRows64 (viabilitiesByRow wells rowCount) rowConcentrations 0 of
        Inl e \<Rightarrow> Inl e
      | Inr ps \<Rightarrow>
          let dataPoints = dataPointsOf64 ps in
          if length dataPoints < 2 then Inr None
          else case crossingLoop64 dataPoints 0 of
            None \<Rightarrow> Inr None
          | Some (p1, p2) \<Rightarrow>
              if less64 (abs64 (sub64 (viability64 p2) (viability64 p1))) (toDouble (1 / 1000000))
              then Inr None
              else (case interpolate64 p1 p2 of
                      Finite ic50Value \<Rightarrow> Inr (Some \<lparr>ic50_value = ic50Value, ic50_units = units\<rparr>)
                    | _ \<Rightarrow> Inr None))"

subsection \<open>The bracket of a crossing\<close>

text \<open>The sorted data points the estimator scans; none when the mapping throws.\<close>

definition doseSeries64 :: "WellResult list \<Rightarrow> real list \<Rightarrow> nat \<Rightarrow> DataPoint64 list" where
  "doseSeries64 wells rowConcentrations rowCount =
     (case mapRows64 (viabilitiesByRow wells rowCount) rowConcentrations 0 of
        Inl e \<Rightarrow> []
      | Inr ps \<Rightarrow> dataPointsOf64 ps)"

text \<open>The first adjacent pair of data points whose viabilities lie on both sides of 50.\<close>

definition firstCrossingAt64 :: "DataPoint64 list \<Rightarrow> nat \<Rightarrow> bool" where
  "firstCrossingAt64 ds k \<longleftrightarrow>
     k + 1 < length ds \<and> crosses50_64 (ds ! k) (ds ! (k + 1)) \<and>
     (\<forall>j<k. \<not> crosses50_64 (ds ! j) (ds ! (j + 1)))"

text \<open>
  A bound of what the five roundings of line 189 add to or take from the exact value, for
  a bracket whose greater concentration is \<^term>\<open>c\<close>: a relative part, less than eight
  units in the last place of \<^term>\<open>c\<close>, and an absolute part for a product or quotient
  that falls into the subnormal range.
\<close>

definition roundingSlack :: "real \<Rightarrow> real" where
  "roundingSlack c = c / 2 ^ 50 + 1 / 2 ^ 1050"

text \<open>
  Two rows of two wells, with viabilities 100 and 0 in the first row and 0 and 0 in the
  second, at the doubles next to 0.01 and 0.1.
\<close>

definition twoRowWells :: "WellResult list" where
  "twoRowWells = [exampleWell 0 100, exampleWell 0 0, exampleWell 1 0, exampleWell 1 0]"

definition centi :: real where
  "centi = 5764607523034235 / 2 ^ 59"

definition deci :: real where
  "deci = 7205759403792794 / 2 ^ 56"


section \<open>Properties of the color space converter\<close>

lemma cube_root_cube:
  fixes t :: real
  assumes "0 < t"
  shows "(t powr (1 / 3)) ^ 3 = t"
proof -
  have "(t powr (1 / 3)) ^ 3 = (t powr (1 / 3)) powr 3" by simp
  also have "\<dots> = t powr 1" by (simp add: powr_powr)
  also have "\<dots> = t" using assms by simp
  finally show ?thesis .
qed

lemma cube_cube_root:
  fixes a :: real
  assumes "0 \<le> a"
  shows "(a ^ 3) powr (1 / 3) = a"
proof -
  have "(a ^ 3) powr (1 / 3) = (a powr 3) powr (1 / 3)" using assms by simp
  also have "\<dots> = a powr 1" by (simp add: powr_powr)
  also have "\<dots> = a" using assms by simp
  finally show ?thesis .
qed

lemma f_inv_lab_f:
  assumes "0 \<le> t"
  shows "\<bar>f_inv (lab_f t) - t\<bar> \<le> 1 / 1000000"
proof (cases "t > 0.008856")
  case False
  then have "\<not> 7.787 * t + 16 / 116 > 0.206897" by simp
  with False show ?thesis by (simp add: lab_f_def f_inv_def)
next
  case True
  define u where "u = t powr (1 / 3)"
  have t: "0 < t" using True by simp
  have cube: "u ^ 3 = t" unfolding u_def using t by (rule cube_root_cube)
  have lab: "lab_f t = u" using True by (simp add: lab_f_def u_def)
  show ?thesis
  proof (cases "u > 0.206897")
    case True
    then show ?thesis by (simp add: lab f_inv_def cube)
  next
    case False
    then have hi: "u \<le> 0.206897" by simp
    have "(0.206893 :: real) = ((0.206893 :: real) ^ 3) powr (1 / 3)"
      by (rule cube_cube_root [symmetric]) simp
    also have "\<dots> \<le> t powr (1 / 3)"
    proof (rule powr_mono2)
      show "(0.206893 :: real) ^ 3 \<le> t" using True by (simp add: power3_eq_cube)
    qed simp_all
    finally have lo: "0.206893 \<le> u" by (simp add: u_def)
    have "u ^ 3 \<le> (0.206897 :: real) ^ 3"
      using hi lo by (intro power_mono) simp_all
    then have thi: "t \<le> 0.0088566" unfolding cube by (simp add: power3_eq_cube)
    define f where "f = f_inv (lab_f t)"
    have "f = (u - 16 / 116) / 7.787"
      using False by (simp add: f_def lab f_inv_def)
    then have A: "225823 * f = 29000 * u - 4000" by (simp add: field_simps)
    have hi': "u \<le> 206897 / 1000000" using hi by simp
    have lo': "206893 / 1000000 \<le> u" using lo by simp
    have tlo: "8856 / 1000000 < t" using True by simp
    have thi': "t \<le> 88566 / 10000000" using thi by simp
    have "225823 * (f - t) \<le> 225823 / 1000000"
      using A hi' tlo by (simp add: algebra_simps)
    moreover have "225823 * (t - f) \<le> 225823 / 1000000"
      using A lo' thi' by (simp add: algebra_simps)
    ultimately have "f - t \<le> 1 / 1000000" "- (f - t) \<le> 1 / 1000000" by simp_all
    then have "\<bar>f - t\<bar> \<le> 1 / 1000000" by (rule abs_leI)
    then show ?thesis unfolding f_def .
  qed
qed

lemma powr_split:
  fixes x :: real
  assumes "0 \<le> x"
  shows "x powr (12 / 5) = x ^ 2 * x powr (2 / 5)"
proof -
  have "x powr (12 / 5) = x powr (2 + 2 / 5)" by simp
  also have "\<dots> = x powr 2 * x powr (2 / 5)" by (rule powr_add)
  also have "x powr 2 = x ^ 2" using assms by simp
  finally show ?thesis .
qed

lemma fifth_root_fifth:
  fixes a :: real
  assumes "0 \<le> a"
  shows "(a ^ 5) powr (1 / 5) = a"
proof -
  have "(a ^ 5) powr (1 / 5) = (a powr 5) powr (1 / 5)" using assms by simp
  also have "\<dots> = a powr 1" by (simp add: powr_powr)
  also have "\<dots> = a" using assms by simp
  finally show ?thesis .
qed

lemma powr_two_fifths_lower:
  fixes x :: real
  assumes "9 / 100 \<le> x"
  shows "38 / 100 \<le> x powr (2 / 5)"
proof -
  have "(38 / 100 :: real) = ((38 / 100) ^ 5) powr (1 / 5)"
    by (rule fifth_root_fifth [symmetric]) simp
  also have "\<dots> \<le> (x ^ 2) powr (1 / 5)"
  proof (rule powr_mono2)
    have "(38 / 100 :: real) ^ 5 \<le> (9 / 100) ^ 2" by (simp add: power_divide)
    also have "\<dots> \<le> x ^ 2" using assms by (intro power_mono) simp_all
    finally show "(38 / 100 :: real) ^ 5 \<le> x ^ 2" .
  qed simp_all
  also have "(x ^ 2) powr (1 / 5) = (x powr 2) powr (1 / 5)" using assms by simp
  also have "\<dots> = x powr (2 / 5)" by (simp add: powr_powr)
  finally show ?thesis .
qed

lemma powr_inverse_exponent:
  fixes x :: real
  assumes "0 \<le> x"
  shows "(x powr (12 / 5)) powr (5 / 12) = x"
  using assms by (simp add: powr_powr)

lemma powr_diff_lower:
  fixes x y :: real
  assumes "9 / 100 \<le> x" "x \<le> y"
  shows "(y ^ 2 - x ^ 2) * (38 / 100) \<le> y powr (12 / 5) - x powr (12 / 5)"
proof -
  have x0: "0 \<le> x" and y0: "0 \<le> y" using assms by simp_all
  have px: "38 / 100 \<le> x powr (2 / 5)" using assms(1) by (rule powr_two_fifths_lower)
  have mono: "x powr (2 / 5) \<le> y powr (2 / 5)" using assms x0 by (intro powr_mono2) simp_all
  have sq: "x ^ 2 \<le> y ^ 2" using assms x0 by (intro power_mono) simp_all
  have "(y ^ 2 - x ^ 2) * (38 / 100) \<le> (y ^ 2 - x ^ 2) * x powr (2 / 5)"
    using sq px by (intro mult_left_mono) simp_all
  also have "\<dots> = y ^ 2 * x powr (2 / 5) - x ^ 2 * x powr (2 / 5)" by (simp add: algebra_simps)
  also have "\<dots> \<le> y ^ 2 * y powr (2 / 5) - x ^ 2 * x powr (2 / 5)"
    using mono by (simp add: mult_left_mono)
  finally show ?thesis by (simp add: powr_split x0 y0)
qed

lemma clamp_exact:
  fixes c :: int and v :: real
  assumes "0 \<le> c" "c \<le> 255"
    and "real_of_int c - 1 / 2 \<le> v * 255" "v * 255 < real_of_int c + 1 / 2"
  shows "clamp v = c"
proof -
  have "\<lfloor>v * 255 + 1 / 2\<rfloor> = c"
    using assms(3,4) by (intro floor_unique) simp_all
  then show ?thesis using assms(1,2) by (simp add: clamp_def js_round_def)
qed

lemma channel_low:
  fixes c :: int and d :: real
  assumes c: "0 \<le> c" "c \<le> 10" and d: "\<bar>d\<bar> \<le> 1 / 100000"
  shows "clamp (toSrgb (linearize (real_of_int c / 255) + d)) = c"
proof -
  define s where "s = real_of_int c / 255"
  have "real_of_int c \<le> 10" "0 \<le> real_of_int c" using c by simp_all
  then have s: "0 \<le> s" "s \<le> 10 / 255" by (simp_all add: s_def)
  have lin: "linearize s = s * (100 / 1292)" using s by (simp add: linearize_def)
  have small: "\<not> s * (100 / 1292) + d > 31308 / 10000000" using s d by (simp add: algebra_simps)
  have ts: "toSrgb (linearize s + d) = (1292 / 100) * (s * (100 / 1292) + d)"
    unfolding lin using small by (simp add: toSrgb_def)
  have val: "toSrgb (linearize s + d) * 255 = real_of_int c + (32946 / 10) * d"
    unfolding ts by (simp add: s_def algebra_simps)
  have "real_of_int c - 1 / 2 \<le> toSrgb (linearize s + d) * 255"
    unfolding val using d by (simp add: algebra_simps)
  moreover have "toSrgb (linearize s + d) * 255 < real_of_int c + 1 / 2"
    unfolding val using d by (simp add: algebra_simps)
  ultimately show ?thesis
    unfolding s_def [symmetric] using c by (intro clamp_exact) simp_all
qed

lemma channel_high:
  fixes c :: int and d :: real
  assumes c: "11 \<le> c" "c \<le> 255" and d: "\<bar>d\<bar> \<le> 1 / 100000"
  shows "clamp (toSrgb (linearize (real_of_int c / 255) + d)) = c"
proof -
  define s where "s = real_of_int c / 255"
  define a where "a = (s + 55 / 1000) * (1000 / 1055)"
  define h where "h = (1000 / (510 * 1055) :: real)"
  define r where "r = a powr (12 / 5)"
  define w where "w = (r + d) powr (5 / 12)"
  have "11 \<le> real_of_int c" "real_of_int c \<le> 255" using c by simp_all
  then have s: "11 / 255 \<le> s" "s \<le> 1" by (simp_all add: s_def)
  have a: "93 / 1000 \<le> a" "a \<le> 1" unfolding a_def using s by (simp_all add: algebra_simps)
  have b: "9 / 100 \<le> a - h" "a - h \<le> a" unfolding h_def using a by (simp_all add: algebra_simps)
  have ah: "9 / 100 \<le> a" "a \<le> a + h" unfolding h_def using a by (simp_all add: algebra_simps)
  have lin: "linearize s = r"
    using s by (simp add: linearize_def r_def a_def)
  \<comment> \<open>the linear value stays in the power segment\<close>
  have r_lo: "32 / 10000 \<le> r"
  proof -
    have "(93 / 1000) ^ 2 * (38 / 100) \<le> a ^ 2 * a powr (2 / 5)"
      using a powr_two_fifths_lower [of a]
      by (intro mult_mono power_mono) simp_all
    then show ?thesis unfolding r_def using a by (simp add: powr_split power2_eq_square)
  qed
  have seg: "r + d > 31308 / 10000000" using r_lo d by (simp add: algebra_simps)
  have ts: "toSrgb (linearize s + d) = (1055 / 1000) * w - 55 / 1000"
    unfolding lin using seg by (simp add: toSrgb_def w_def)
  \<comment> \<open>the perturbed linear value stays between the neighbours' thresholds\<close>
  have low: "(a - h) powr (12 / 5) \<le> r + d"
  proof -
    have "(a ^ 2 - (a - h) ^ 2) * (38 / 100) \<le> r - (a - h) powr (12 / 5)"
      unfolding r_def using b by (rule powr_diff_lower)
    moreover have "a ^ 2 - (a - h) ^ 2 = h * (a + (a - h))" by (simp add: power2_eq_square algebra_simps)
    moreover have "h * (18 / 100) \<le> h * (a + (a - h))"
      using a b by (intro mult_left_mono) (simp_all add: h_def)
    ultimately have "h * (18 / 100) * (38 / 100) \<le> r - (a - h) powr (12 / 5)" by simp
    moreover have "1 / 100000 \<le> h * (18 / 100) * (38 / 100)" by (simp add: h_def)
    ultimately show ?thesis using d by (simp add: algebra_simps)
  qed
  have high: "r + d < (a + h) powr (12 / 5)"
  proof -
    have "((a + h) ^ 2 - a ^ 2) * (38 / 100) \<le> (a + h) powr (12 / 5) - r"
      unfolding r_def using ah by (rule powr_diff_lower)
    moreover have "(a + h) ^ 2 - a ^ 2 = h * (a + (a + h))" by (simp add: power2_eq_square algebra_simps)
    moreover have "h * (18 / 100) \<le> h * (a + (a + h))"
      using a ah by (intro mult_left_mono) (simp_all add: h_def)
    ultimately have "h * (18 / 100) * (38 / 100) \<le> (a + h) powr (12 / 5) - r" by simp
    moreover have "1 / 100000 < h * (18 / 100) * (38 / 100)" by (simp add: h_def)
    ultimately show ?thesis using d by (simp add: algebra_simps)
  qed
  have w_lo: "a - h \<le> w"
  proof -
    have "a - h = ((a - h) powr (12 / 5)) powr (5 / 12)"
      using b by (intro powr_inverse_exponent [symmetric]) simp
    also have "\<dots> \<le> w" unfolding w_def using low by (intro powr_mono2) simp_all
    finally show ?thesis .
  qed
  have w_hi: "w < a + h"
  proof -
    have "w < ((a + h) powr (12 / 5)) powr (5 / 12)"
      unfolding w_def using high seg by (intro powr_less_mono2) simp_all
    also have "\<dots> = a + h" using ah by (intro powr_inverse_exponent) simp
    finally show ?thesis .
  qed
  have sa: "(1055 / 1000) * a - 55 / 1000 = s" unfolding a_def by (simp add: algebra_simps)
  have hh: "255 * (1055 / 1000) * h = 1 / 2" by (simp add: h_def)
  have cs: "real_of_int c = 255 * s" by (simp add: s_def)
  have "real_of_int c - 1 / 2 \<le> toSrgb (linearize s + d) * 255"
    unfolding ts cs using w_lo sa hh by (simp add: algebra_simps)
  moreover have "toSrgb (linearize s + d) * 255 < real_of_int c + 1 / 2"
    unfolding ts cs using w_hi sa hh by (simp add: algebra_simps)
  ultimately show ?thesis
    unfolding s_def [symmetric] using c by (intro clamp_exact) simp_all
qed

lemma channel_roundtrip:
  fixes c :: int and d :: real
  assumes "0 \<le> c" "c \<le> 255" "\<bar>d\<bar> \<le> 1 / 100000"
  shows "clamp (toSrgb (linearize (real_of_int c / 255) + d)) = c"
  using assms channel_low [of c d] channel_high [of c d] by (cases "c \<le> 10") simp_all

lemma linearize_range:
  fixes c :: int
  assumes "0 \<le> c" "c \<le> 255"
  shows "0 \<le> linearize (real_of_int c / 255) \<and> linearize (real_of_int c / 255) \<le> 1"
proof -
  define s where "s = real_of_int c / 255"
  have "0 \<le> real_of_int c" "real_of_int c \<le> 255" using assms by simp_all
  then have s: "0 \<le> s" "s \<le> 1" by (simp_all add: s_def)
  show ?thesis
  proof (cases "s > 0.04045")
    case True
    have "0 \<le> (s + 0.055) / 1.055" "(s + 0.055) / 1.055 \<le> 1" using s by simp_all
    then have "((s + 0.055) / 1.055) powr 2.4 \<le> 1" by (intro powr_le1) simp_all
    then show ?thesis using True by (simp add: linearize_def s_def)
  next
    case False
    then show ?thesis using s by (simp add: linearize_def s_def)
  qed
qed

lemma undo_scale:
  fixes a b :: real
  shows "500 * (a - b) / 500 + b = a" "b - 200 * (b - a) / 200 = a"
  by (simp_all add: field_simps)

lemma labToRgb_of:
  assumes "(lab_l L + 16) / 116 = vy" "lab_a L / 500 + vy = vx" "vy - lab_b L / 200 = vz"
  shows "labToRgb L =
     \<lparr>rgb_r = clamp (toSrgb (f_inv vx * 0.95047 * 3.2404542 + f_inv vy * 1.00000 * - 1.5371385
                            + f_inv vz * 1.08883 * - 0.4985314)),
      rgb_g = clamp (toSrgb (f_inv vx * 0.95047 * - 0.9692660 + f_inv vy * 1.00000 * 1.8760108
                            + f_inv vz * 1.08883 * 0.0415560)),
      rgb_b = clamp (toSrgb (f_inv vx * 0.95047 * 0.0556434 + f_inv vy * 1.00000 * - 0.2040259
                            + f_inv vz * 1.08883 * 1.0572252))\<rparr>"
  unfolding labToRgb_def Let_def assms ..

lemma recenter: "(R :: real) + (E - R) = E"
  by simp

lemma abs_scaled:
  fixes a x b :: real
  assumes "\<bar>x\<bar> \<le> b"
  shows "\<bar>a * x\<bar> \<le> \<bar>a\<bar> * b"
  using assms by (simp add: abs_mult mult_left_mono)

lemma abs_sum6:
  fixes x1 x2 x3 x4 x5 x6 :: real
  assumes "\<bar>x1\<bar> \<le> b1" "\<bar>x2\<bar> \<le> b2" "\<bar>x3\<bar> \<le> b3" "\<bar>x4\<bar> \<le> b4" "\<bar>x5\<bar> \<le> b5" "\<bar>x6\<bar> \<le> b6"
  shows "\<bar>x1 + x2 + x3 + x4 + x5 + x6\<bar> \<le> b1 + b2 + b3 + b4 + b5 + b6"
proof -
  have "\<bar>x1 + x2 + x3 + x4 + x5 + x6\<bar> \<le> \<bar>x1 + x2 + x3 + x4 + x5\<bar> + \<bar>x6\<bar>"
    by (rule abs_triangle_ineq)
  also have "\<bar>x1 + x2 + x3 + x4 + x5\<bar> \<le> \<bar>x1 + x2 + x3 + x4\<bar> + \<bar>x5\<bar>"
    by (rule abs_triangle_ineq)
  also have "\<bar>x1 + x2 + x3 + x4\<bar> \<le> \<bar>x1 + x2 + x3\<bar> + \<bar>x4\<bar>"
    by (rule abs_triangle_ineq)
  also have "\<bar>x1 + x2 + x3\<bar> \<le> \<bar>x1 + x2\<bar> + \<bar>x3\<bar>"
    by (rule abs_triangle_ineq)
  also have "\<bar>x1 + x2\<bar> \<le> \<bar>x1\<bar> + \<bar>x2\<bar>"
    by (rule abs_triangle_ineq)
  finally have "\<bar>x1 + x2 + x3 + x4 + x5 + x6\<bar> \<le> \<bar>x1\<bar> + \<bar>x2\<bar> + \<bar>x3\<bar> + \<bar>x4\<bar> + \<bar>x5\<bar> + \<bar>x6\<bar>"
    by simp
  also have "\<dots> \<le> b1 + b2 + b3 + b4 + b5 + b6"
    by (intro add_mono assms)
  finally show ?thesis .
qed

lemma mix_identity:
  fixes wx wy wz :: real
  assumes "wx \<noteq> 0" "wy \<noteq> 0" "wz \<noteq> 0"
  shows "fx * wx * ma + fy * wy * mb + fz * wz * mc - (ta * R + tb * G + tc * B) =
           (ma * xa + mb * ya + mc * za - ta) * R + (ma * xb + mb * yb + mc * zb - tb) * G
         + (ma * xc + mb * yc + mc * zc - tc) * B
         + (ma * wx) * (fx - (R * xa + G * xb + B * xc) / wx)
         + (mb * wy) * (fy - (R * ya + G * yb + B * yc) / wy)
         + (mc * wz) * (fz - (R * za + G * zb + B * zc) / wz)"
  using assms by (simp add: field_simps)

lemma mix_bound:
  fixes wx wy wz :: real
  assumes R: "0 \<le> R" "R \<le> 1" and G: "0 \<le> G" "G \<le> 1" and B: "0 \<le> B" "B \<le> 1"
    and ex: "\<bar>fx - (R * xa + G * xb + B * xc) / wx\<bar> \<le> e"
    and ey: "\<bar>fy - (R * ya + G * yb + B * yc) / wy\<bar> \<le> e"
    and ez: "\<bar>fz - (R * za + G * zb + B * zc) / wz\<bar> \<le> e"
    and w: "wx \<noteq> 0" "wy \<noteq> 0" "wz \<noteq> 0"
    and T: "T = ta * R + tb * G + tc * B"
    and K: "\<bar>ma * xa + mb * ya + mc * za - ta\<bar> + \<bar>ma * xb + mb * yb + mc * zb - tb\<bar>
            + \<bar>ma * xc + mb * yc + mc * zc - tc\<bar>
            + \<bar>ma * wx\<bar> * e + \<bar>mb * wy\<bar> * e + \<bar>mc * wz\<bar> * e \<le> bound"
  shows "\<bar>fx * wx * ma + fy * wy * mb + fz * wz * mc - T\<bar> \<le> bound"
proof -
  have r: "\<bar>R\<bar> \<le> 1" and g: "\<bar>G\<bar> \<le> 1" and b: "\<bar>B\<bar> \<le> 1" using R G B by simp_all
  have "\<bar>fx * wx * ma + fy * wy * mb + fz * wz * mc - (ta * R + tb * G + tc * B)\<bar>
      \<le> \<bar>ma * xa + mb * ya + mc * za - ta\<bar> * 1 + \<bar>ma * xb + mb * yb + mc * zb - tb\<bar> * 1
            + \<bar>ma * xc + mb * yc + mc * zc - tc\<bar> * 1
            + \<bar>ma * wx\<bar> * e + \<bar>mb * wy\<bar> * e + \<bar>mc * wz\<bar> * e"
    unfolding mix_identity [OF w, of fx ma fy mb fz mc ta R tb G tc B xa ya za xb yb zb xc yc zc]
    by (intro abs_sum6 abs_scaled r g b ex ey ez)
  also have "\<dots> \<le> bound" using K by simp
  finally show ?thesis unfolding T .
qed

lemma roundtrip_exact:
  fixes rgb :: RGB
  assumes r: "0 \<le> rgb_r rgb" "rgb_r rgb \<le> 255"
    and g: "0 \<le> rgb_g rgb" "rgb_g rgb \<le> 255"
    and b: "0 \<le> rgb_b rgb" "rgb_b rgb \<le> 255"
  shows "labToRgb (rgbToLab rgb) = rgb"
proof -
  define R where "R = linearize (real_of_int (rgb_r rgb) / 255)"
  define G where "G = linearize (real_of_int (rgb_g rgb) / 255)"
  define B where "B = linearize (real_of_int (rgb_b rgb) / 255)"
  define tx where "tx = (R * 0.4124564 + G * 0.3575761 + B * 0.1804375) / 0.95047"
  define ty where "ty = (R * 0.2126729 + G * 0.7151522 + B * 0.0721750) / 1.00000"
  define tz where "tz = (R * 0.0193339 + G * 0.1191920 + B * 0.9503041) / 1.08883"
  define fx where "fx = f_inv (lab_f tx)"
  define fy where "fy = f_inv (lab_f ty)"
  define fz where "fz = f_inv (lab_f tz)"
  have R: "0 \<le> R" "R \<le> 1" using linearize_range [OF r] by (simp_all add: R_def)
  have G: "0 \<le> G" "G \<le> 1" using linearize_range [OF g] by (simp_all add: G_def)
  have B: "0 \<le> B" "B \<le> 1" using linearize_range [OF b] by (simp_all add: B_def)
  have tx0: "0 \<le> tx" unfolding tx_def using R G B by simp
  have ty0: "0 \<le> ty" unfolding ty_def using R G B by simp
  have tz0: "0 \<le> tz" unfolding tz_def using R G B by simp
  have ex: "\<bar>fx - tx\<bar> \<le> 1 / 1000000" unfolding fx_def using tx0 by (rule f_inv_lab_f)
  have ey: "\<bar>fy - ty\<bar> \<le> 1 / 1000000" unfolding fy_def using ty0 by (rule f_inv_lab_f)
  have ez: "\<bar>fz - tz\<bar> \<le> 1 / 1000000" unfolding fz_def using tz0 by (rule f_inv_lab_f)
  have lab: "rgbToLab rgb =
      \<lparr>lab_l = (116 * lab_f ty) - 16, lab_a = 500 * (lab_f tx - lab_f ty),
       lab_b = 200 * (lab_f ty - lab_f tz)\<rparr>"
    unfolding rgbToLab_def Let_def tx_def ty_def tz_def R_def G_def B_def ..
  have conv: "labToRgb (rgbToLab rgb) =
     \<lparr>rgb_r = clamp (toSrgb (fx * 0.95047 * 3.2404542 + fy * 1.00000 * - 1.5371385
                            + fz * 1.08883 * - 0.4985314)),
      rgb_g = clamp (toSrgb (fx * 0.95047 * - 0.9692660 + fy * 1.00000 * 1.8760108
                            + fz * 1.08883 * 0.0415560)),
      rgb_b = clamp (toSrgb (fx * 0.95047 * 0.0556434 + fy * 1.00000 * - 0.2040259
                            + fz * 1.08883 * 1.0572252))\<rparr>"
    unfolding fx_def fy_def fz_def
  proof (rule labToRgb_of)
    show "(lab_l (rgbToLab rgb) + 16) / 116 = lab_f ty" by (simp add: lab)
    show "lab_a (rgbToLab rgb) / 500 + lab_f ty = lab_f tx" unfolding lab Lab.simps by (rule undo_scale)
    show "lab_f ty - lab_b (rgbToLab rgb) / 200 = lab_f tz" unfolding lab Lab.simps by (rule undo_scale)
  qed
  define dr where "dr = fx * 0.95047 * 3.2404542 + fy * 1.00000 * - 1.5371385
                            + fz * 1.08883 * - 0.4985314 - R"
  define dg where "dg = fx * 0.95047 * - 0.9692660 + fy * 1.00000 * 1.8760108
                            + fz * 1.08883 * 0.0415560 - G"
  define db where "db = fx * 0.95047 * 0.0556434 + fy * 1.00000 * - 0.2040259
                            + fz * 1.08883 * 1.0572252 - B"
  have dr: "\<bar>dr\<bar> \<le> 1 / 100000"
    unfolding dr_def
    by (rule mix_bound [OF R G B ex [unfolded tx_def] ey [unfolded ty_def] ez [unfolded tz_def],
          where ta = 1 and tb = 0 and tc = 0]) (simp_all add: abs_mult)
  have dg: "\<bar>dg\<bar> \<le> 1 / 100000"
    unfolding dg_def
    by (rule mix_bound [OF R G B ex [unfolded tx_def] ey [unfolded ty_def] ez [unfolded tz_def],
          where ta = 0 and tb = 1 and tc = 0]) (simp_all add: abs_mult)
  have db: "\<bar>db\<bar> \<le> 1 / 100000"
    unfolding db_def
    by (rule mix_bound [OF R G B ex [unfolded tx_def] ey [unfolded ty_def] ez [unfolded tz_def],
          where ta = 0 and tb = 0 and tc = 1]) (simp_all add: abs_mult)
  have cr: "clamp (toSrgb (R + dr)) = rgb_r rgb"
    unfolding R_def using r dr by (intro channel_roundtrip)
  have cg: "clamp (toSrgb (G + dg)) = rgb_g rgb"
    unfolding G_def using g dg by (intro channel_roundtrip)
  have cb: "clamp (toSrgb (B + db)) = rgb_b rgb"
    unfolding B_def using b db by (intro channel_roundtrip)
  have "labToRgb (rgbToLab rgb) =
      \<lparr>rgb_r = clamp (toSrgb (R + dr)), rgb_g = clamp (toSrgb (G + dg)),
       rgb_b = clamp (toSrgb (B + db))\<rparr>"
    unfolding conv dr_def dg_def db_def recenter ..
  then show ?thesis by (simp add: cr cg cb)
qed

text \<open>
  C1. For every RGB triple with integer channels from 0 to 255, converting to Lab and back
  gives the triple again. (In exact arithmetic the rounded matrix entries and the two
  thresholds of the Lab transfer function move each linear channel by less than
  \<open>10^-5\<close>, and \<^const>\<open>clamp\<close> after \<^const>\<open>toSrgb\<close> absorbs that.)
\<close>

theorem labToRgb_rgbToLab:
  assumes "rgb_r rgb \<in> {0..255}" "rgb_g rgb \<in> {0..255}" "rgb_b rgb \<in> {0..255}"
  shows "labToRgb (rgbToLab rgb) = rgb"
  using assms by (intro roundtrip_exact) simp_all

theorem labToRgb_rgbToLab_witness:
  "rgb_r \<lparr>rgb_r = 12, rgb_g = 200, rgb_b = 0\<rparr> \<in> {0..255} \<and>
   rgb_g \<lparr>rgb_r = 12, rgb_g = 200, rgb_b = 0\<rparr> \<in> {0..255} \<and>
   rgb_b \<lparr>rgb_r = 12, rgb_g = 200, rgb_b = 0\<rparr> \<in> {0..255} \<and>
   labToRgb (rgbToLab \<lparr>rgb_r = 12, rgb_g = 200, rgb_b = 0\<rparr>) =
     \<lparr>rgb_r = 12, rgb_g = 200, rgb_b = 0\<rparr>"
  using labToRgb_rgbToLab [of "\<lparr>rgb_r = 12, rgb_g = 200, rgb_b = 0\<rparr>"] by simp

section \<open>Properties of the IC50 estimator\<close>

lemma crossingLoop_None:
  "crossingLoop ds i = None \<longleftrightarrow> (\<forall>k\<ge>i. k + 1 < length ds \<longrightarrow> \<not> crosses50 (ds ! k) (ds ! (k + 1)))"
proof (induction ds i rule: crossingLoop.induct)
  case (1 ds i)
  show ?case
  proof (cases "i < length ds - 1")
    case False
    then show ?thesis by (auto simp: crossingLoop.simps [of ds i])
  next
    case True
    show ?thesis
    proof (cases "crosses50 (ds ! i) (ds ! (i + 1))")
      case c: True
      with True show ?thesis by (auto simp: crossingLoop.simps [of ds i])
    next
      case c: False
      have "crossingLoop ds i = crossingLoop ds (i + 1)"
        using True c by (simp add: crossingLoop.simps [of ds i])
      also have "\<dots> = None \<longleftrightarrow> (\<forall>k\<ge>i + 1. k + 1 < length ds \<longrightarrow> \<not> crosses50 (ds ! k) (ds ! (k + 1)))"
        using "1.IH" [OF True c] .
      also have "\<dots> \<longleftrightarrow> (\<forall>k\<ge>i. k + 1 < length ds \<longrightarrow> \<not> crosses50 (ds ! k) (ds ! (k + 1)))"
        using c by (metis Suc_eq_plus1 Suc_leI le_neq_implies_less add_leD1 order_refl le_Suc_eq)
      finally show ?thesis .
    qed
  qed
qed

lemma crossingLoop_Some:
  "crossingLoop ds i = Some pq \<longleftrightarrow>
     (\<exists>k\<ge>i. k + 1 < length ds \<and> crosses50 (ds ! k) (ds ! (k + 1)) \<and>
        (\<forall>j. i \<le> j \<and> j < k \<longrightarrow> \<not> crosses50 (ds ! j) (ds ! (j + 1))) \<and>
        pq = orderPair (ds ! k) (ds ! (k + 1)))"
proof (induction ds i rule: crossingLoop.induct)
  case (1 ds i)
  show ?case
  proof (cases "i < length ds - 1")
    case False
    then show ?thesis by (auto simp: crossingLoop.simps [of ds i])
  next
    case True
    show ?thesis
    proof (cases "crosses50 (ds ! i) (ds ! (i + 1))")
      case c: True
      have "crossingLoop ds i = Some (orderPair (ds ! i) (ds ! (i + 1)))"
        using True c by (simp add: crossingLoop.simps [of ds i])
      moreover have "(\<exists>k\<ge>i. k + 1 < length ds \<and> crosses50 (ds ! k) (ds ! (k + 1)) \<and>
        (\<forall>j. i \<le> j \<and> j < k \<longrightarrow> \<not> crosses50 (ds ! j) (ds ! (j + 1))) \<and>
        pq = orderPair (ds ! k) (ds ! (k + 1))) \<longleftrightarrow> pq = orderPair (ds ! i) (ds ! (i + 1))"
      proof
        assume "\<exists>k\<ge>i. k + 1 < length ds \<and> crosses50 (ds ! k) (ds ! (k + 1)) \<and>
        (\<forall>j. i \<le> j \<and> j < k \<longrightarrow> \<not> crosses50 (ds ! j) (ds ! (j + 1))) \<and>
        pq = orderPair (ds ! k) (ds ! (k + 1))"
        then obtain k where k: "k \<ge> i" "\<forall>j. i \<le> j \<and> j < k \<longrightarrow> \<not> crosses50 (ds ! j) (ds ! (j + 1))"
          "pq = orderPair (ds ! k) (ds ! (k + 1))" by blast
        have "k = i"
        proof (rule ccontr)
          assume "k \<noteq> i"
          with k(1) have "i < k" by simp
          with k(2) c show False by blast
        qed
        with k(3) show "pq = orderPair (ds ! i) (ds ! (i + 1))" by simp
      next
        assume "pq = orderPair (ds ! i) (ds ! (i + 1))"
        with True c show "\<exists>k\<ge>i. k + 1 < length ds \<and> crosses50 (ds ! k) (ds ! (k + 1)) \<and>
        (\<forall>j. i \<le> j \<and> j < k \<longrightarrow> \<not> crosses50 (ds ! j) (ds ! (j + 1))) \<and>
        pq = orderPair (ds ! k) (ds ! (k + 1))"
          by (intro exI [of _ i]) auto
      qed
      ultimately show ?thesis by auto
    next
      case c: False
      have "crossingLoop ds i = crossingLoop ds (i + 1)"
        using True c by (simp add: crossingLoop.simps [of ds i])
      moreover have "(\<exists>k\<ge>i. k + 1 < length ds \<and> crosses50 (ds ! k) (ds ! (k + 1)) \<and>
        (\<forall>j. i \<le> j \<and> j < k \<longrightarrow> \<not> crosses50 (ds ! j) (ds ! (j + 1))) \<and>
        pq = orderPair (ds ! k) (ds ! (k + 1))) \<longleftrightarrow>
        (\<exists>k\<ge>i + 1. k + 1 < length ds \<and> crosses50 (ds ! k) (ds ! (k + 1)) \<and>
        (\<forall>j. i + 1 \<le> j \<and> j < k \<longrightarrow> \<not> crosses50 (ds ! j) (ds ! (j + 1))) \<and>
        pq = orderPair (ds ! k) (ds ! (k + 1)))" (is "?L \<longleftrightarrow> ?R")
      proof
        assume ?L
        then obtain k where k: "k \<ge> i" "k + 1 < length ds" "crosses50 (ds ! k) (ds ! (k + 1))"
          "\<forall>j. i \<le> j \<and> j < k \<longrightarrow> \<not> crosses50 (ds ! j) (ds ! (j + 1))"
          "pq = orderPair (ds ! k) (ds ! (k + 1))" by blast
        from k(1,3) c have "k \<ge> i + 1" by (cases "k = i") auto
        with k show ?R by (intro exI [of _ k]) auto
      next
        assume ?R
        then obtain k where k: "k \<ge> i + 1" "k + 1 < length ds" "crosses50 (ds ! k) (ds ! (k + 1))"
          "\<forall>j. i + 1 \<le> j \<and> j < k \<longrightarrow> \<not> crosses50 (ds ! j) (ds ! (j + 1))"
          "pq = orderPair (ds ! k) (ds ! (k + 1))" by blast
        have "\<forall>j. i \<le> j \<and> j < k \<longrightarrow> \<not> crosses50 (ds ! j) (ds ! (j + 1))"
        proof (intro allI impI)
          fix j assume j: "i \<le> j \<and> j < k"
          show "\<not> crosses50 (ds ! j) (ds ! (j + 1))"
          proof (cases "j = i")
            case True then show ?thesis using c by simp
          next
            case False with j k(4) show ?thesis by simp
          qed
        qed
        with k show ?L by (intro exI [of _ k]) auto
      qed
      ultimately show ?thesis using "1.IH" [OF True c] by simp
    qed
  qed
qed

lemma crossingLoop_first:
  "crossingLoop ds 0 = Some pq \<longleftrightarrow>
     (\<exists>k. firstCrossingAt ds k \<and> pq = orderPair (ds ! k) (ds ! (k + 1)))"
  by (simp add: crossingLoop_Some firstCrossingAt_def)


lemma foldl_pushViability_length:
  "length (foldl (pushViability n) rows wells) = length rows"
  by (induction wells arbitrary: rows) (auto simp: pushViability_def)

lemma foldl_pushViability_nth:
  "length rows = n \<Longrightarrow> i < n \<Longrightarrow>
   foldl (pushViability n) rows wells ! i =
   rows ! i @ map viability (filter (\<lambda>w. row w = i) wells)"
proof (induction wells arbitrary: rows)
  case Nil
  then show ?case by simp
next
  case (Cons w ws)
  have len: "length (pushViability n rows w) = n"
    using Cons.prems by (simp add: pushViability_def)
  have step: "pushViability n rows w ! i =
      (if row w = i then rows ! i @ [viability w] else rows ! i)"
    using Cons.prems by (auto simp: pushViability_def nth_list_update)
  show ?case
    using Cons.IH [OF len Cons.prems(2)] step by simp
qed

lemma length_viabilitiesByRow: "length (viabilitiesByRow wells n) = n"
  by (simp add: viabilitiesByRow_def foldl_pushViability_length)

lemma viabilitiesByRow_nth:
  "i < n \<Longrightarrow> viabilitiesByRow wells n ! i = map viability (filter (\<lambda>w. row w = i) wells)"
  by (simp add: viabilitiesByRow_def foldl_pushViability_nth)

lemma foldl_plus_sum_list: "foldl (+) a xs = a + sum_list (xs :: real list)"
  by (induction xs arbitrary: a) auto

lemma mapRows_total:
  "\<forall>j<length cs. cs ! j \<le> 0 \<or> i + j < length byRow \<Longrightarrow> \<exists>ps. mapRows byRow cs i = Inr ps"
proof (induction cs arbitrary: i)
  case Nil
  then show ?case by simp
next
  case (Cons c cs)
  have "c \<le> 0 \<or> i < length byRow" using Cons.prems by (auto dest: spec [of _ 0])
  then have "\<exists>p. rowPoint byRow c i = Inr p"
    by (cases "c \<le> 0 \<or> byRow ! i = []") (auto simp: rowPoint_def Let_def)
  then obtain p where p: "rowPoint byRow c i = Inr p" ..
  have "\<forall>j<length cs. cs ! j \<le> 0 \<or> Suc i + j < length byRow"
  proof (intro allI impI)
    fix j assume "j < length cs"
    then show "cs ! j \<le> 0 \<or> Suc i + j < length byRow"
      using Cons.prems by (auto dest!: spec [of _ "Suc j"])
  qed
  from Cons.IH [OF this] obtain ps where "mapRows byRow cs (Suc i) = Inr ps" by blast
  with p show ?case by simp
qed

lemma mapRows_throws:
  "j < length cs \<Longrightarrow> cs ! j > 0 \<Longrightarrow> \<not> i + j < length byRow \<Longrightarrow>
   mapRows byRow cs i = Inl TypeError"
proof (induction cs arbitrary: i j)
  case Nil
  then show ?case by simp
next
  case (Cons c cs)
  show ?case
  proof (cases j)
    case 0
    with Cons.prems have "rowPoint byRow c i = Inl TypeError"
      by (simp add: rowPoint_def)
    then show ?thesis by simp
  next
    case (Suc j')
    with Cons.prems have "mapRows byRow cs (Suc i) = Inl TypeError"
      by (intro Cons.IH [of j']) auto
    moreover have "rowPoint byRow c i = Inl TypeError \<or> (\<exists>p. rowPoint byRow c i = Inr p)"
      by (auto simp: rowPoint_def Let_def)
    ultimately show ?thesis by auto
  qed
qed

lemma calculateIC50_Some:
  "calculateIC50 wells rcs n units = Inr (Some res) \<longleftrightarrow>
     2 \<le> length (filter (\<lambda>c. c > 0) rcs) \<and>
     (\<exists>ps k p1 p2. mapRows (viabilitiesByRow wells n) rcs 0 = Inr ps \<and>
        firstCrossingAt (dataPointsOf ps) k \<and>
        (p1, p2) = orderPair (dataPointsOf ps ! k) (dataPointsOf ps ! (k + 1)) \<and>
        1 / 1000000 \<le> \<bar>dp_viability p2 - dp_viability p1\<bar> \<and>
        res = \<lparr>ic50_value = interpolate p1 p2, ic50_units = units\<rparr>)"
  (is "?L \<longleftrightarrow> ?R")
proof
  assume L: ?L
  then have pos: "2 \<le> length (filter (\<lambda>c. c > 0) rcs)"
    by (auto simp: calculateIC50_def split: if_splits)
  from L pos obtain ps where ps: "mapRows (viabilitiesByRow wells n) rcs 0 = Inr ps"
    by (auto simp: calculateIC50_def split: if_splits sum.splits)
  from L pos ps obtain p1 p2 where c: "crossingLoop (dataPointsOf ps) 0 = Some (p1, p2)"
    and gap: "\<not> \<bar>dp_viability p2 - dp_viability p1\<bar> < 1 / 1000000"
    and res: "res = \<lparr>ic50_value = interpolate p1 p2, ic50_units = units\<rparr>"
    by (auto simp: calculateIC50_def Let_def split: if_splits option.splits)
  from c obtain k where "firstCrossingAt (dataPointsOf ps) k"
    "(p1, p2) = orderPair (dataPointsOf ps ! k) (dataPointsOf ps ! (k + 1))"
    by (auto simp: crossingLoop_first)
  with pos ps gap res show ?R
    by (intro conjI exI [of _ ps] exI [of _ k] exI [of _ p1] exI [of _ p2]) auto
next
  assume R: ?R
  then obtain ps k p1 p2 where pos: "2 \<le> length (filter (\<lambda>c. c > 0) rcs)"
    and ps: "mapRows (viabilitiesByRow wells n) rcs 0 = Inr ps"
    and k: "firstCrossingAt (dataPointsOf ps) k"
    and pq: "(p1, p2) = orderPair (dataPointsOf ps ! k) (dataPointsOf ps ! (k + 1))"
    and gap: "1 / 1000000 \<le> \<bar>dp_viability p2 - dp_viability p1\<bar>"
    and res: "res = \<lparr>ic50_value = interpolate p1 p2, ic50_units = units\<rparr>"
    by blast
  from k pq have c: "crossingLoop (dataPointsOf ps) 0 = Some (p1, p2)"
    by (auto simp: crossingLoop_first)
  from k have len: "\<not> length (dataPointsOf ps) < 2" by (simp add: firstCrossingAt_def)
  show ?L using pos ps c len gap res by (simp add: calculateIC50_def Let_def)
qed


lemma rowPoint_viabilitiesByRow:
  assumes "rowPoint (viabilitiesByRow wells n) c i = Inr p"
  shows "(case p of None \<Rightarrow> [] | Some q \<Rightarrow> [q]) = seriesPoint wells (i, c)"
proof (cases "c \<le> 0")
  case True
  with assms show ?thesis by (auto simp: rowPoint_def seriesPoint_def)
next
  case False
  with assms have i: "i < n"
    by (auto simp: rowPoint_def length_viabilitiesByRow split: if_splits)
  then have row: "viabilitiesByRow wells n ! i = rowViabilities wells i"
    by (simp add: viabilitiesByRow_nth rowViabilities_def)
  show ?thesis
    using assms False i row
    by (auto simp: rowPoint_def seriesPoint_def rowMean_def length_viabilitiesByRow Let_def
        foldl_plus_sum_list split: if_splits)
qed

lemma mapRows_series:
  "mapRows (viabilitiesByRow wells n) cs i = Inr ps \<Longrightarrow>
   List.map_filter (\<lambda>p. p) ps = concat (map (seriesPoint wells) (enumerate i cs))"
proof (induction cs arbitrary: i ps)
  case Nil
  then show ?case by (simp add: List.map_filter_simps)
next
  case (Cons c cs)
  from Cons.prems obtain p ps' where p: "rowPoint (viabilitiesByRow wells n) c i = Inr p"
    and ps': "mapRows (viabilitiesByRow wells n) cs (Suc i) = Inr ps'" and eq: "ps = p # ps'"
    by (auto split: sum.splits)
  show ?case
    using Cons.IH [OF ps'] rowPoint_viabilitiesByRow [OF p] eq
    by (simp add: List.map_filter_simps split: option.splits)
qed

lemma dataPointsOf_doseSeries:
  "mapRows (viabilitiesByRow wells n) rcs 0 = Inr ps \<Longrightarrow> dataPointsOf ps = doseSeries wells rcs"
  by (simp add: dataPointsOf_def doseSeries_def mapRows_series)

lemma mapRows_Inr_iff:
  "(\<exists>ps. mapRows byRow cs i = Inr ps) \<longleftrightarrow> (\<forall>j<length cs. 0 < cs ! j \<longrightarrow> i + j < length byRow)"
proof
  assume "\<exists>ps. mapRows byRow cs i = Inr ps"
  then obtain ps where ps: "mapRows byRow cs i = Inr ps" ..
  show "\<forall>j<length cs. 0 < cs ! j \<longrightarrow> i + j < length byRow"
  proof (intro allI impI)
    fix j assume "j < length cs" "0 < cs ! j"
    then show "i + j < length byRow"
      using mapRows_throws [of j cs i byRow] ps by auto
  qed
next
  assume "\<forall>j<length cs. 0 < cs ! j \<longrightarrow> i + j < length byRow"
  then have "\<forall>j<length cs. cs ! j \<le> 0 \<or> i + j < length byRow" by (meson not_le)
  then show "\<exists>ps. mapRows byRow cs i = Inr ps" by (rule mapRows_total)
qed

lemma rowsCovered_iff: "rowsCovered rcs n \<longleftrightarrow> (\<forall>j<length rcs. 0 < rcs ! j \<longrightarrow> j < n)"
  by (auto simp: rowsCovered_def list_all_length nth_enumerate_eq)

lemma calculateIC50_Inl:
  "calculateIC50 wells rcs n units = Inl e \<longleftrightarrow>
     2 \<le> length (filter (\<lambda>c. c > 0) rcs) \<and> \<not> rowsCovered rcs n \<and> e = TypeError"
proof (cases "length (filter (\<lambda>c. c > 0) rcs) < 2")
  case True
  then show ?thesis by (simp add: calculateIC50_def)
next
  case pos: False
  show ?thesis
  proof (cases "rowsCovered rcs n")
    case True
    then obtain ps where "mapRows (viabilitiesByRow wells n) rcs 0 = Inr ps"
      using mapRows_Inr_iff [of "viabilitiesByRow wells n" rcs 0]
      by (auto simp: rowsCovered_iff length_viabilitiesByRow)
    with pos True show ?thesis
      by (auto simp: calculateIC50_def Let_def split: option.splits)
  next
    case False
    then obtain j where "j < length rcs" "0 < rcs ! j" "\<not> j < n"
      by (auto simp: rowsCovered_iff)
    then have "mapRows (viabilitiesByRow wells n) rcs 0 = Inl TypeError"
      by (intro mapRows_throws [of j]) (auto simp: length_viabilitiesByRow)
    with pos False show ?thesis by (auto simp: calculateIC50_def)
  qed
qed

lemma orderPair_crossing:
  assumes "crosses50 a b"
  shows "(p1, p2) = orderPair a b \<longleftrightarrow>
           {p1, p2} = {a, b} \<and> dp_viability p1 < dp_viability p2"
  using assms by (auto simp: orderPair_def crosses50_def doubleton_eq_iff)

lemma calculateIC50_Some_series:
  "calculateIC50 wells rcs n units = Inr (Some res) \<longleftrightarrow>
     2 \<le> length (filter (\<lambda>c. c > 0) rcs) \<and> rowsCovered rcs n \<and>
     (\<exists>k p1 p2. firstCrossingAt (doseSeries wells rcs) k \<and>
        {p1, p2} = {doseSeries wells rcs ! k, doseSeries wells rcs ! (k + 1)} \<and>
        dp_viability p1 < dp_viability p2 \<and>
        1 / 1000000 \<le> dp_viability p2 - dp_viability p1 \<and>
        res = \<lparr>ic50_value = interpolate p1 p2, ic50_units = units\<rparr>)"
  (is "?L \<longleftrightarrow> ?pos \<and> ?cov \<and> ?R")
proof
  assume L: ?L
  then obtain ps k p1 p2 where pos: ?pos
    and ps: "mapRows (viabilitiesByRow wells n) rcs 0 = Inr ps"
    and k: "firstCrossingAt (dataPointsOf ps) k"
    and pq: "(p1, p2) = orderPair (dataPointsOf ps ! k) (dataPointsOf ps ! (k + 1))"
    and gap: "1 / 1000000 \<le> \<bar>dp_viability p2 - dp_viability p1\<bar>"
    and res: "res = \<lparr>ic50_value = interpolate p1 p2, ic50_units = units\<rparr>"
    unfolding calculateIC50_Some by blast
  have ds: "dataPointsOf ps = doseSeries wells rcs" using ps by (rule dataPointsOf_doseSeries)
  have cov: ?cov
    using mapRows_Inr_iff [of "viabilitiesByRow wells n" rcs 0] ps
    by (auto simp: rowsCovered_iff length_viabilitiesByRow)
  from k have cr: "crosses50 (dataPointsOf ps ! k) (dataPointsOf ps ! (k + 1))"
    by (simp add: firstCrossingAt_def)
  from pq have ord: "{p1, p2} = {dataPointsOf ps ! k, dataPointsOf ps ! (k + 1)}"
    "dp_viability p1 < dp_viability p2"
    using orderPair_crossing [OF cr, of p1 p2] by auto
  with gap have "1 / 1000000 \<le> dp_viability p2 - dp_viability p1" by simp
  with pos cov k ord res show "?pos \<and> ?cov \<and> ?R" unfolding ds by blast
next
  assume R: "?pos \<and> ?cov \<and> ?R"
  then obtain k p1 p2 where pos: ?pos and cov: ?cov
    and k: "firstCrossingAt (doseSeries wells rcs) k"
    and set: "{p1, p2} = {doseSeries wells rcs ! k, doseSeries wells rcs ! (k + 1)}"
    and lt: "dp_viability p1 < dp_viability p2"
    and gap: "1 / 1000000 \<le> dp_viability p2 - dp_viability p1"
    and res: "res = \<lparr>ic50_value = interpolate p1 p2, ic50_units = units\<rparr>"
    by blast
  from cov obtain ps where ps: "mapRows (viabilitiesByRow wells n) rcs 0 = Inr ps"
    using mapRows_Inr_iff [of "viabilitiesByRow wells n" rcs 0]
    by (auto simp: rowsCovered_iff length_viabilitiesByRow)
  have ds: "dataPointsOf ps = doseSeries wells rcs" using ps by (rule dataPointsOf_doseSeries)
  from k have cr: "crosses50 (doseSeries wells rcs ! k) (doseSeries wells rcs ! (k + 1))"
    by (simp add: firstCrossingAt_def)
  have pq: "(p1, p2) = orderPair (doseSeries wells rcs ! k) (doseSeries wells rcs ! (k + 1))"
    using orderPair_crossing [OF cr, of p1 p2] set lt by simp
  from gap have "1 / 1000000 \<le> \<bar>dp_viability p2 - dp_viability p1\<bar>" by simp
  with pos ps k pq res show ?L unfolding calculateIC50_Some ds [symmetric] by blast
qed


lemma interpolate_between:
  assumes "dp_viability p1 < 50" "50 \<le> dp_viability p2"
  shows "min (concentration p1) (concentration p2) \<le> interpolate p1 p2 \<and>
         interpolate p1 p2 \<le> max (concentration p1) (concentration p2)"
proof -
  define t where "t = (50 - dp_viability p1) / (dp_viability p2 - dp_viability p1)"
  have t0: "0 < t" using assms by (simp add: t_def)
  have t1: "t \<le> 1" using assms by (simp add: t_def)
  have eq: "interpolate p1 p2 = concentration p1 + t * (concentration p2 - concentration p1)"
    by (simp add: interpolate_def t_def)
  show ?thesis
  proof (cases "concentration p1 \<le> concentration p2")
    case True
    then have d: "0 \<le> concentration p2 - concentration p1" by simp
    have "0 \<le> t * (concentration p2 - concentration p1)"
      using t0 d by simp
    moreover have "t * (concentration p2 - concentration p1) \<le> 1 * (concentration p2 - concentration p1)"
      using t1 d by (intro mult_right_mono) auto
    ultimately show ?thesis using True eq by simp
  next
    case False
    then have d: "0 \<le> concentration p1 - concentration p2" by simp
    have "0 \<le> t * (concentration p1 - concentration p2)"
      using t0 d by simp
    moreover have "t * (concentration p1 - concentration p2) \<le> 1 * (concentration p1 - concentration p2)"
      using t1 d by (intro mult_right_mono) auto
    ultimately show ?thesis using False eq by (simp add: algebra_simps)
  qed
qed

lemma doseSeries_concentration:
  assumes "p \<in> set (doseSeries wells rcs)"
  shows "concentration p \<in> {c \<in> set rcs. 0 < c}"
proof -
  from assms obtain ic where ic: "ic \<in> set (enumerate 0 rcs)" "p \<in> set (seriesPoint wells ic)"
    by (auto simp: doseSeries_def)
  from ic(2) have "concentration p = snd ic" "0 < snd ic"
    by (auto simp: seriesPoint_def split: if_splits)
  moreover from ic(1) have "fst ic < length rcs" "rcs ! fst ic = snd ic"
    by (simp_all add: in_set_enumerate_eq)
  then have "snd ic \<in> set rcs" by (metis nth_mem)
  ultimately show ?thesis by simp
qed

lemma sorted_doseSeries: "sorted (map concentration (doseSeries wells rcs))"
  by (simp add: doseSeries_def)




text \<open>
  In exact arithmetic a value the estimator returns lies between the concentrations of the
  two data points of the first crossing, hence between the least and the greatest positive
  row concentration. The doubles of the code are treated in the sections on binary64.
\<close>

lemma calculateIC50_exact_within_bracket:
  assumes "calculateIC50 wells rowConcentrations rowCount units = Inr (Some res)"
  shows "\<exists>k. firstCrossingAt (doseSeries wells rowConcentrations) k \<and>
           concentration (doseSeries wells rowConcentrations ! k) \<le> ic50_value res \<and>
           ic50_value res \<le> concentration (doseSeries wells rowConcentrations ! (k + 1)) \<and>
           Min {c \<in> set rowConcentrations. 0 < c} \<le> ic50_value res \<and>
           ic50_value res \<le> Max {c \<in> set rowConcentrations. 0 < c}"
proof -
  let ?ds = "doseSeries wells rowConcentrations"
  let ?P = "{c \<in> set rowConcentrations. 0 < c}"
  from assms obtain k p1 p2 where k: "firstCrossingAt ?ds k"
    and pair: "{p1, p2} = {?ds ! k, ?ds ! (k + 1)}"
    and lt: "dp_viability p1 < dp_viability p2"
    and res: "res = \<lparr>ic50_value = interpolate p1 p2, ic50_units = units\<rparr>"
    unfolding calculateIC50_Some_series by blast
  from k have len: "k + 1 < length ?ds" and cr: "crosses50 (?ds ! k) (?ds ! (k + 1))"
    by (simp_all add: firstCrossingAt_def)
  from cr pair lt have v: "dp_viability p1 < 50" "50 \<le> dp_viability p2"
    by (auto simp: crosses50_def doubleton_eq_iff)
  have le: "concentration (?ds ! k) \<le> concentration (?ds ! (k + 1))"
    using sorted_doseSeries [of wells rowConcentrations] len
    by (auto simp: sorted_iff_nth_mono dest!: spec [of _ k] spec [of _ "k + 1"])
  from pair le have mm: "min (concentration p1) (concentration p2) = concentration (?ds ! k)"
    "max (concentration p1) (concentration p2) = concentration (?ds ! (k + 1))"
    by (auto simp: doubleton_eq_iff)
  from interpolate_between [OF v] res mm
  have br: "concentration (?ds ! k) \<le> ic50_value res"
    "ic50_value res \<le> concentration (?ds ! (k + 1))" by simp_all
  have fin: "finite ?P" by simp
  have "concentration (?ds ! k) \<in> ?P" "concentration (?ds ! (k + 1)) \<in> ?P"
    using len by (auto intro!: doseSeries_concentration [of _ wells rowConcentrations, simplified])
  then have "Min ?P \<le> concentration (?ds ! k)" "concentration (?ds ! (k + 1)) \<le> Max ?P"
    using fin by (auto intro: Min_le Max_ge)
  with br k show ?thesis by (intro exI [of _ k]) auto
qed

lemma calculateIC50_exact_within_bracket_example:
  "calculateIC50 exampleWells [1, 10, 100, 1000] 4 [] =
     Inr (Some \<lparr>ic50_value = 55, ic50_units = []\<rparr>) \<and>
   (\<exists>k. firstCrossingAt (doseSeries exampleWells [1, 10, 100, 1000]) k \<and>
      concentration (doseSeries exampleWells [1, 10, 100, 1000] ! k) \<le> 55 \<and>
      55 \<le> concentration (doseSeries exampleWells [1, 10, 100, 1000] ! (k + 1)) \<and>
      Min {c \<in> set [1, 10, 100, 1000]. 0 < c} \<le> (55 :: real) \<and>
      55 \<le> Max {c \<in> set [1, 10, 100, 1000]. 0 < (c :: real)})"
proof -
  have h: "calculateIC50 exampleWells [1, 10, 100, 1000] 4 [] =
     Inr (Some \<lparr>ic50_value = 55, ic50_units = []\<rparr>)"
    by code_simp
  show ?thesis
    using h calculateIC50_exact_within_bracket [OF h] by simp
qed

text \<open>
  C3. The estimator can throw: with three concentrations for a plate of two rows, the
  third one positive, the row array at index 2 is \<^verbatim>\<open>undefined\<close>, the optional chaining
  \<^verbatim>\<open>?.length === 0\<close> is false and \<^verbatim>\<open>viabilities.reduce\<close> raises a \<^verbatim>\<open>TypeError\<close>,
  whatever the wells are.
\<close>

theorem calculateIC50_throws:
  "calculateIC50 wells [1, 2, 3] 2 units = Inl TypeError"
  by (simp add: calculateIC50_Inl rowsCovered_def enumerate_simps)

section \<open>Rounding: error, monotonicity, exact cases\<close>

lemma roundEven_err: "\<bar>of_int (roundEven t) - t\<bar> \<le> 1 / 2"
  unfolding roundEven_def Let_def by (auto; linarith)

lemma roundEven_int [simp]: "roundEven (of_int n) = n"
  unfolding roundEven_def Let_def by simp

lemma roundEven_mono: "t \<le> t' \<Longrightarrow> roundEven t \<le> roundEven t'"
proof -
  assume le: "t \<le> t'"
  then have fl: "\<lfloor>t\<rfloor> \<le> \<lfloor>t'\<rfloor>" by (rule floor_mono)
  show ?thesis
  proof (cases "\<lfloor>t\<rfloor> = \<lfloor>t'\<rfloor>")
    case True
    with le show ?thesis unfolding roundEven_def Let_def by auto
  next
    case False
    with fl have lt: "\<lfloor>t\<rfloor> + 1 \<le> \<lfloor>t'\<rfloor>" by simp
    have a: "roundEven t \<le> \<lfloor>t\<rfloor> + 1" unfolding roundEven_def Let_def by auto
    have b: "\<lfloor>t'\<rfloor> \<le> roundEven t'" unfolding roundEven_def Let_def by auto
    from a lt b show ?thesis by linarith
  qed
qed

lemma roundEven_minus: "roundEven (- t) = - roundEven t"
proof (cases "t = of_int \<lfloor>t\<rfloor>")
  case True
  then obtain n where "t = of_int n" ..
  then have "- t = of_int (- n)" by simp
  then show ?thesis unfolding \<open>t = of_int n\<close> by (simp only: roundEven_int)
next
  case False
  then have c: "\<lceil>t\<rceil> = \<lfloor>t\<rfloor> + 1" by (simp add: ceiling_altdef)
  have f: "\<lfloor>- t\<rfloor> = - \<lfloor>t\<rfloor> - 1" unfolding floor_minus c by simp
  show ?thesis unfolding roundEven_def Let_def f by (auto simp: algebra_simps)
qed


lemma bitLength_floorlog: "bitLength n = floorlog 2 (nat n)"
proof (induction n rule: bitLength.induct)
  case (1 n)
  show ?case
  proof (cases "n \<le> 0")
    case True
    then show ?thesis by (subst bitLength.simps) (simp add: floorlog_def)
  next
    case False
    then have "bitLength n = Suc (floorlog 2 (nat (n div 2)))"
      using 1 by (subst bitLength.simps) simp
    also have "nat (n div 2) = nat n div 2" by (simp add: nat_div_distrib)
    also have "Suc (floorlog 2 (nat n div 2)) = floorlog 2 (nat n)"
      using False by (subst (2) compute_floorlog) simp
    finally show ?thesis .
  qed
qed

lemma ulpExponent_floorlog: "ulpExponent s = floorlog 2 (nat \<lfloor>\<bar>s\<bar>\<rfloor>) - 53"
  by (simp add: ulpExponent_def bitLength_floorlog)

lemma ulpExponent_upper: "\<bar>s\<bar> < 2 ^ (ulpExponent s + 53)"
proof -
  define n where "n = nat \<lfloor>\<bar>s\<bar>\<rfloor>"
  have n: "real n + 1 \<le> 2 ^ floorlog 2 n"
  proof (cases "n = 0")
    case True then show ?thesis by simp
  next
    case False
    then have "n < 2 ^ floorlog 2 n" using floorlog_bounds [of n 2] by simp
    then have "n + 1 \<le> 2 ^ floorlog 2 n" by simp
    then have "real (n + 1) \<le> real (2 ^ floorlog 2 n)" by (rule of_nat_mono)
    then show ?thesis by simp
  qed
  have "\<bar>s\<bar> < real n + 1" unfolding n_def by (simp add: abs_if; linarith)
  also note n
  also have "(2 :: real) ^ floorlog 2 n \<le> 2 ^ (ulpExponent s + 53)"
    unfolding ulpExponent_floorlog n_def [symmetric] by (rule power_increasing) simp_all
  finally show ?thesis .
qed

lemma ulpExponent_lower:
  assumes "0 < ulpExponent s"
  shows "2 ^ (ulpExponent s + 52) \<le> \<bar>s\<bar>"
proof -
  define n where "n = nat \<lfloor>\<bar>s\<bar>\<rfloor>"
  from assms have b: "53 < floorlog 2 n" unfolding ulpExponent_floorlog n_def by simp
  then have pos: "0 < n" by (auto simp: floorlog_def split: if_splits)
  then have "2 ^ (floorlog 2 n - 1) \<le> n" using floorlog_bounds [of n 2] by simp
  then have "real (2 ^ (floorlog 2 n - 1)) \<le> real n" by (rule of_nat_mono)
  then have a: "(2 :: real) ^ (floorlog 2 n - 1) \<le> real n" by simp
  have eq: "floorlog 2 n - 1 = ulpExponent s + 52"
    using b unfolding ulpExponent_floorlog n_def by simp
  have c: "real n \<le> \<bar>s\<bar>" unfolding n_def by (simp add: abs_if; linarith)
  show ?thesis using order_trans [OF a c] unfolding eq .
qed

lemma ulpExponent_mono: "\<bar>s\<bar> \<le> \<bar>s'\<bar> \<Longrightarrow> ulpExponent s \<le> ulpExponent s'"
  unfolding ulpExponent_floorlog
  by (intro diff_le_mono floorlog_mono nat_mono floor_mono)

lemma ulpExponent_minus [simp]: "ulpExponent (- s) = ulpExponent s"
  by (simp add: ulpExponent_def)

lemma roundScaled_minus: "roundScaled (- s) = - roundScaled s"
  by (simp add: roundScaled_def roundEven_minus)

lemma roundScaled_err: "\<bar>roundScaled s - s\<bar> \<le> 2 ^ ulpExponent s / 2"
proof -
  define e where "e = ulpExponent s"
  have "roundScaled s - s = (of_int (roundEven (s / 2 ^ e)) - s / 2 ^ e) * 2 ^ e"
    by (simp add: roundScaled_def e_def algebra_simps)
  then have "\<bar>roundScaled s - s\<bar> = \<bar>of_int (roundEven (s / 2 ^ e)) - s / 2 ^ e\<bar> * 2 ^ e"
    by (simp add: abs_mult)
  also have "\<dots> \<le> 1 / 2 * 2 ^ e"
    by (rule mult_right_mono [OF roundEven_err]) simp
  finally show ?thesis by (simp add: e_def)
qed

lemma roundScaled_err_normal:
  assumes "0 < ulpExponent s"
  shows "\<bar>roundScaled s - s\<bar> \<le> \<bar>s\<bar> / 2 ^ 53"
proof -
  have "(2 :: real) ^ ulpExponent s / 2 = 2 ^ (ulpExponent s + 52) / 2 ^ 53"
    by (simp add: power_add)
  also have "\<dots> \<le> \<bar>s\<bar> / 2 ^ 53"
    by (rule divide_right_mono [OF ulpExponent_lower [OF assms]]) simp
  finally show ?thesis using roundScaled_err [of s] by linarith
qed

lemma roundScaled_exact:
  assumes "ulpExponent s = 0" "s = of_int k"
  shows "roundScaled s = s"
  using assms by (simp add: roundScaled_def)

lemma roundScaled_err_all: "\<bar>roundScaled s - s\<bar> \<le> \<bar>s\<bar> / 2 ^ 53 + 1 / 2"
proof (cases "0 < ulpExponent s")
  case True
  from roundScaled_err_normal [OF this] show ?thesis by simp
next
  case False
  then have "ulpExponent s = 0" by simp
  with roundScaled_err [of s] have "\<bar>roundScaled s - s\<bar> \<le> 1 / 2" by simp
  moreover have "0 \<le> \<bar>s\<bar> / 2 ^ 53" by simp
  ultimately show ?thesis by linarith
qed

lemma roundScaled_err_int:
  assumes "s = of_int k"
  shows "\<bar>roundScaled s - s\<bar> \<le> \<bar>s\<bar> / 2 ^ 53"
proof (cases "0 < ulpExponent s")
  case True
  then show ?thesis by (rule roundScaled_err_normal)
next
  case False
  then have "ulpExponent s = 0" by simp
  from roundScaled_exact [OF this assms] show ?thesis by simp
qed

lemma roundScaled_grid: "\<exists>k. roundScaled s = of_int k"
proof -
  have "roundScaled s = of_int (roundEven (s / 2 ^ ulpExponent s) * 2 ^ ulpExponent s)"
    by (simp add: roundScaled_def)
  then show ?thesis ..
qed

lemma roundScaled_0 [simp]: "roundScaled 0 = 0"
  using roundEven_int [of 0] by (simp add: roundScaled_def del: roundEven_int)

lemma roundScaled_nonneg: "0 \<le> s \<Longrightarrow> 0 \<le> roundScaled s"
proof -
  assume "0 \<le> s"
  then have "0 \<le> s / 2 ^ ulpExponent s" by simp
  from roundEven_mono [OF this] have "0 \<le> roundEven (s / 2 ^ ulpExponent s)"
    using roundEven_int [of 0] by (simp del: roundEven_int)
  then show ?thesis by (simp add: roundScaled_def)
qed

lemma roundScaled_mono_pos:
  assumes "0 \<le> s" "s \<le> s'"
  shows "roundScaled s \<le> roundScaled s'"
proof -
  define e e' where "e = ulpExponent s" and "e' = ulpExponent s'"
  from assms have "\<bar>s\<bar> \<le> \<bar>s'\<bar>" by simp
  then have ee: "e \<le> e'" unfolding e_def e'_def by (rule ulpExponent_mono)
  show ?thesis
  proof (cases "e = e'")
    case True
    have "s / 2 ^ e \<le> s' / 2 ^ e" using assms by (simp add: divide_right_mono)
    from roundEven_mono [OF this]
    have "(of_int (roundEven (s / 2 ^ e)) :: real) \<le> of_int (roundEven (s' / 2 ^ e))" by simp
    then have "(of_int (roundEven (s / 2 ^ e)) :: real) * 2 ^ e \<le> of_int (roundEven (s' / 2 ^ e)) * 2 ^ e"
      by (rule mult_right_mono) simp
    then show ?thesis unfolding roundScaled_def e_def [symmetric] e'_def [symmetric] True [symmetric] .
  next
    case False
    with ee have lt: "e < e'" by simp
    then have pos: "0 < ulpExponent s'" by (simp add: e'_def)
    define K :: real where "K = 2 ^ (e' + 52)"
    have K': "K \<le> s'" using ulpExponent_lower [OF pos] assms by (simp add: K_def e'_def)
    have "s < 2 ^ (e + 53)" using ulpExponent_upper [of s] assms by (simp add: e_def)
    also have "(2 :: real) ^ (e + 53) \<le> K" unfolding K_def
      by (rule power_increasing) (use lt in simp_all)
    finally have sK: "s \<le> K" by simp
    have "(2 :: real) ^ (e' + 52 - e) * 2 ^ e = 2 ^ (e' + 52 - e + e)"
      by (simp only: power_add)
    also have "e' + 52 - e + e = e' + 52" using lt by simp
    finally have Kf: "K = 2 ^ (e' + 52 - e) * 2 ^ e" by (simp only: K_def)
    then have Ke: "K / 2 ^ e = of_int (2 ^ (e' + 52 - e))" by simp
    have "s / 2 ^ e \<le> K / 2 ^ e" using sK by (simp add: divide_right_mono)
    from roundEven_mono [OF this] have "roundEven (s / 2 ^ e) \<le> 2 ^ (e' + 52 - e)"
      unfolding Ke by (simp only: roundEven_int)
    then have "(of_int (roundEven (s / 2 ^ e)) :: real) \<le> of_int (2 ^ (e' + 52 - e))"
      by (simp only: of_int_le_iff)
    then have "(of_int (roundEven (s / 2 ^ e)) :: real) * 2 ^ e \<le> of_int (2 ^ (e' + 52 - e)) * 2 ^ e"
      by (rule mult_right_mono) simp
    also have "\<dots> = K" using Kf by simp
    finally have low: "roundScaled s \<le> K" by (simp add: roundScaled_def e_def)
    have Ke': "K / 2 ^ e' = of_int (2 ^ 52)" by (simp add: K_def power_add)
    have "K / 2 ^ e' \<le> s' / 2 ^ e'" using K' by (simp add: divide_right_mono)
    from roundEven_mono [OF this] have "2 ^ 52 \<le> roundEven (s' / 2 ^ e')"
      unfolding Ke' by (simp only: roundEven_int)
    then have "(of_int (2 ^ 52) :: real) \<le> of_int (roundEven (s' / 2 ^ e'))"
      by (simp only: of_int_le_iff)
    then have A: "(of_int (2 ^ 52) :: real) * 2 ^ e' \<le> of_int (roundEven (s' / 2 ^ e')) * 2 ^ e'"
      by (rule mult_right_mono) simp
    have B: "(of_int (2 ^ 52) :: real) * 2 ^ e' = K" by (simp add: K_def power_add)
    have "K \<le> roundScaled s'"
      using A unfolding B roundScaled_def e'_def [symmetric] .
    with low show ?thesis by simp
  qed
qed

lemma roundScaled_mono:
  assumes "s \<le> s'"
  shows "roundScaled s \<le> roundScaled s'"
proof -
  consider "0 \<le> s" | "s < 0" "0 \<le> s'" | "s' < 0" by linarith
  then show ?thesis
  proof cases
    case 1
    then show ?thesis using assms by (rule roundScaled_mono_pos)
  next
    case 2
    then have "0 \<le> roundScaled (- s)" by (intro roundScaled_nonneg) simp
    then have "roundScaled s \<le> 0" by (simp add: roundScaled_minus)
    also have "0 \<le> roundScaled s'" using 2 by (intro roundScaled_nonneg)
    finally show ?thesis .
  next
    case 3
    then have "roundScaled (- s') \<le> roundScaled (- s)"
      using assms by (intro roundScaled_mono_pos) simp_all
    then show ?thesis by (simp add: roundScaled_minus)
  qed
qed


lemma grid_pos [simp]: "0 < grid"
  by (simp add: grid_def)

lemma grid_simps [simp]: "grid \<noteq> 0" "0 \<le> grid" "\<bar>grid\<bar> = grid"
  by (simp_all add: grid_def)

lemma round64_minus: "round64 (- x) = - round64 x"
  by (simp add: round64_def roundScaled_minus)

lemma round64_0 [simp]: "round64 0 = 0"
  by (simp add: round64_def)

lemma round64_mono: "x \<le> y \<Longrightarrow> round64 x \<le> round64 y"
  unfolding round64_def
  by (intro divide_right_mono roundScaled_mono mult_right_mono) (simp_all add: less_imp_le)

lemma round64_nonneg: "0 \<le> x \<Longrightarrow> 0 \<le> round64 x"
  using round64_mono [of 0 x] by simp

lemma round64_nonpos: "x \<le> 0 \<Longrightarrow> round64 x \<le> 0"
  using round64_mono [of x 0] by simp

lemma round64_diff: "round64 x - x = (roundScaled (x * grid) - x * grid) / grid"
  by (simp add: round64_def diff_divide_distrib)

lemma round64_err: "\<bar>round64 x - x\<bar> \<le> \<bar>x\<bar> / 2 ^ 53 + 1 / (2 * grid)"
proof -
  define s where "s = x * grid"
  have x: "x = s / grid" by (simp add: s_def)
  have "\<bar>round64 x - x\<bar> = \<bar>roundScaled s - s\<bar> / grid"
    unfolding round64_diff s_def by (simp add: abs_divide)
  also have "\<dots> \<le> (\<bar>s\<bar> / 2 ^ 53 + 1 / 2) / grid"
    by (rule divide_right_mono [OF roundScaled_err_all]) (simp add: less_imp_le)
  also have "\<dots> = \<bar>x\<bar> / 2 ^ 53 + 1 / (2 * grid)"
    unfolding x by (simp add: add_divide_distrib abs_divide)
  finally show ?thesis .
qed

lemma round64_err_grid:
  assumes "x * grid \<in> \<int>"
  shows "\<bar>round64 x - x\<bar> \<le> \<bar>x\<bar> / 2 ^ 53"
proof -
  define s where "s = x * grid"
  from assms obtain k where k: "s = of_int k" unfolding s_def by (auto elim: Ints_cases)
  have x: "x = s / grid" by (simp add: s_def)
  have "\<bar>round64 x - x\<bar> = \<bar>roundScaled s - s\<bar> / grid"
    unfolding round64_diff s_def by (simp add: abs_divide)
  also have "\<dots> \<le> (\<bar>s\<bar> / 2 ^ 53) / grid"
    by (rule divide_right_mono [OF roundScaled_err_int [OF k]]) (simp add: less_imp_le)
  also have "\<dots> = \<bar>x\<bar> / 2 ^ 53"
    unfolding x by (simp add: abs_divide)
  finally show ?thesis .
qed

lemma round64_grid: "round64 x * grid \<in> \<int>"
proof -
  obtain k where "roundScaled (x * grid) = of_int k" using roundScaled_grid by blast
  then show ?thesis by (simp add: round64_def)
qed

lemma isDouble_grid: "isDouble x \<Longrightarrow> x * grid \<in> \<int>"
  using round64_grid [of x] by (simp add: isDouble_def)

lemma ulpExponent_eq:
  assumes lo: "2 ^ (t + 52) \<le> \<bar>s\<bar>" and hi: "\<bar>s\<bar> < 2 ^ (t + 53)"
  shows "ulpExponent s = t"
proof -
  define e where "e = ulpExponent s"
  have "(2 :: real) ^ (t + 52) < 2 ^ (e + 53)"
    using lo ulpExponent_upper [of s] unfolding e_def by (rule le_less_trans)
  then have "t + 52 < e + 53" by (rule power_less_imp_less_exp [rotated]) simp
  then have a: "t \<le> e" by simp
  have "e \<le> t"
  proof (cases "0 < e")
    case True
    then have "(2 :: real) ^ (e + 52) \<le> \<bar>s\<bar>" unfolding e_def by (rule ulpExponent_lower)
    then have "(2 :: real) ^ (e + 52) < 2 ^ (t + 53)" using hi by (rule le_less_trans)
    then have "e + 52 < t + 53" by (rule power_less_imp_less_exp [rotated]) simp
    then show ?thesis by simp
  qed simp
  with a show ?thesis by (simp add: e_def)
qed

lemma round64_normal:
  assumes j: "j \<le> 1074" and lo: "2 ^ 52 \<le> \<bar>x\<bar> * 2 ^ j" and hi: "\<bar>x\<bar> * 2 ^ j < 2 ^ 53"
  shows "round64 x = of_int (roundEven (x * 2 ^ j)) / 2 ^ j"
proof -
  define t where "t = 1074 - j"
  have "j + t = 1074" using j by (simp add: t_def)
  then have p: "grid = 2 ^ j * 2 ^ t"
    unfolding grid_def by (simp only: flip: power_add)
  have s: "\<bar>x * grid\<bar> = \<bar>x\<bar> * 2 ^ j * 2 ^ t" by (simp add: p abs_mult)
  have "2 ^ 52 * 2 ^ t \<le> \<bar>x\<bar> * 2 ^ j * (2 :: real) ^ t"
    by (rule mult_right_mono [OF lo]) simp
  then have a: "2 ^ (t + 52) \<le> \<bar>x * grid\<bar>"
    unfolding s by (simp only: power_add mult.commute)
  have "\<bar>x\<bar> * 2 ^ j * (2 :: real) ^ t < 2 ^ 53 * 2 ^ t"
    by (rule mult_strict_right_mono [OF hi]) simp
  then have b: "\<bar>x * grid\<bar> < 2 ^ (t + 53)"
    unfolding s by (simp only: power_add mult.commute)
  have e: "ulpExponent (x * grid) = t" using a b by (rule ulpExponent_eq)
  have q: "x * grid / 2 ^ t = x * 2 ^ j" by (simp add: p)
  show ?thesis
    unfolding round64_def roundScaled_def e q by (simp add: p)
qed

lemma round64_int:
  assumes "\<bar>n\<bar> < 2 ^ 53"
  shows "round64 (of_int n) = of_int n"
proof -
  define s :: real where "s = of_int n * grid"
  define e where "e = ulpExponent s"
  have e: "e \<le> 1074"
  proof (cases "0 < e")
    case True
    then have "(2 :: real) ^ (e + 52) \<le> \<bar>s\<bar>" unfolding e_def by (rule ulpExponent_lower)
    also have "\<bar>s\<bar> = of_int \<bar>n\<bar> * grid" by (simp add: s_def abs_mult)
    also have "\<dots> < of_int (2 ^ 53) * grid"
      by (intro mult_strict_right_mono) (use assms in simp_all)
    also have "\<dots> = 2 ^ (1075 + 52)" by (simp add: grid_def)
    finally have "e + 52 < 1075 + 52" by (rule power_less_imp_less_exp [rotated]) simp
    then show ?thesis by simp
  qed simp
  then have "1074 - e + e = 1074" by simp
  then have p: "grid = 2 ^ (1074 - e) * 2 ^ e"
    unfolding grid_def by (simp only: flip: power_add)
  have "s / 2 ^ e = of_int (n * 2 ^ (1074 - e))" by (simp add: s_def p)
  then have r: "roundEven (s / 2 ^ e) = n * 2 ^ (1074 - e)" by (simp only: roundEven_int)
  have "roundScaled s = of_int (n * 2 ^ (1074 - e)) * 2 ^ e"
    unfolding roundScaled_def e_def [symmetric] r ..
  also have "\<dots> = s" by (simp add: s_def p)
  finally have "roundScaled (of_int n * grid) = of_int n * grid" unfolding s_def .
  then show ?thesis by (simp add: round64_def)
qed

section \<open>The rounding error of the interpolation\<close>

text \<open>
  The five roundings of line 189 over reals: \<open>U\<close> is one plus the unit roundoff,
  \<open>e\<close> half the least positive double, \<open>K\<close> a bound of the reciprocal of the
  viability difference.
\<close>

lemma quotient_bound:
  fixes U K w d a g m q e :: real
  assumes U: "1 \<le> U" and e: "0 \<le> e" and K: "0 \<le> K"
    and d: "0 \<le> d" "d \<le> w * U"
    and a: "0 \<le> a" "a \<le> g" and g: "0 < g" "1 / g \<le> K"
    and m: "m \<le> a * d * U + e"
    and q: "q \<le> m / g * U + e"
  shows "q \<le> w * U ^ 3 + e * (K * U + 1)"
proof -
  from U have U0: "0 \<le> U" by simp
  have "a * d \<le> g * d" by (rule mult_right_mono [OF a(2) d(1)])
  then have "a * d * U \<le> g * d * U" by (rule mult_right_mono [OF _ U0])
  with m have m1: "m \<le> g * d * U + e" by linarith
  have "m / g \<le> (g * d * U + e) / g"
    by (rule divide_right_mono [OF m1]) (use g in simp)
  also have "\<dots> = d * U + e * (1 / g)" using g by (simp add: field_simps)
  also have "\<dots> \<le> d * U + e * K" using mult_left_mono [OF g(2) e] by simp
  finally have mg: "m / g \<le> d * U + e * K" .
  have "m / g * U \<le> (d * U + e * K) * U" by (rule mult_right_mono [OF mg U0])
  with q have q1: "q \<le> (d * U + e * K) * U + e" by linarith
  have "d * U \<le> w * U * U" by (rule mult_right_mono [OF d(2) U0])
  then have q2: "d * U * U \<le> w * U * U * U" by (rule mult_right_mono [OF _ U0])
  have e1: "(d * U + e * K) * U + e = d * U * U + e * (K * U + 1)" by (simp add: algebra_simps)
  have e2: "w * U ^ 3 = w * U * U * U" by (simp add: power3_eq_cube)
  from q1 q2 show ?thesis unfolding e1 e2 by linarith
qed

lemma sum_upper:
  fixes U c1 c2 q E r :: real
  assumes U: "1 \<le> U" and c: "0 \<le> c1" "c1 \<le> c2"
    and q: "q \<le> (c2 - c1) * U ^ 3 + E"
    and r: "r \<le> (c1 + q) * U"
  shows "r \<le> c2 * U ^ 4 + E * U"
proof -
  from U have U0: "0 \<le> U" by simp
  have "(c1 + q) * U \<le> (c1 + ((c2 - c1) * U ^ 3 + E)) * U"
    by (rule mult_right_mono [OF _ U0]) (use q in simp)
  also have "\<dots> = c1 * U + (c2 - c1) * U ^ 4 + E * U"
    by (simp add: algebra_simps power4_eq_xxxx power3_eq_cube)
  finally have r1: "r \<le> c1 * U + (c2 - c1) * U ^ 4 + E * U" using r by linarith
  have "1 \<le> U ^ 3" using U by (rule one_le_power)
  then have "U * 1 \<le> U * U ^ 3" by (rule mult_left_mono [OF _ U0])
  then have "U \<le> U ^ 4" by (simp add: power4_eq_xxxx power3_eq_cube)
  then have "c1 * U \<le> c1 * U ^ 4" by (rule mult_left_mono [OF _ c(1)])
  with r1 show ?thesis by (simp add: algebra_simps)
qed

lemma sum_lower:
  fixes U c1 c2 q E r :: real
  assumes U: "1 \<le> U" and c: "0 \<le> c2" "c2 \<le> c1"
    and q: "0 \<le> q" "q \<le> (c1 - c2) * U ^ 3 + E"
    and r: "c1 - q - \<bar>c1 - q\<bar> * (U - 1) \<le> r"
  shows "c2 - c1 * (U ^ 4 + U - 2) - E * U \<le> r"
proof -
  define B where "B = (c1 - c2) * U ^ 3 + E"
  from U have U0: "0 \<le> U" and U1: "0 \<le> U - 1" by simp_all
  from q have B0: "0 \<le> B" unfolding B_def by linarith
  have "\<bar>c1 - q\<bar> \<le> c1 + B" using q c B0 unfolding B_def by linarith
  then have "\<bar>c1 - q\<bar> * (U - 1) \<le> (c1 + B) * (U - 1)" by (rule mult_right_mono [OF _ U1])
  with r q have "c1 - B - (c1 + B) * (U - 1) \<le> r" unfolding B_def by linarith
  also have "c1 - B - (c1 + B) * (U - 1) = c1 * (2 - U) - B * U" by (simp add: algebra_simps)
  also have "B * U = (c1 - c2) * U ^ 4 + E * U"
    by (simp add: B_def algebra_simps power4_eq_xxxx power3_eq_cube)
  finally have r1: "c1 * (2 - U) - ((c1 - c2) * U ^ 4 + E * U) \<le> r" .
  have "1 \<le> U ^ 4" using U by (rule one_le_power)
  then have "c2 * 1 \<le> c2 * U ^ 4" by (rule mult_left_mono [OF _ c(1)])
  then have "c2 - c1 * (U ^ 4 + U - 2) - E * U \<le> c1 * (2 - U) - ((c1 - c2) * U ^ 4 + E * U)"
    by (simp add: algebra_simps)
  with r1 show ?thesis by linarith
qed

lemma round64_upper:
  assumes "U = 1 + 1 / 2 ^ 53" "0 \<le> y"
  shows "round64 y \<le> y * U + 1 / (2 * grid)"
proof -
  have "round64 y - y \<le> \<bar>y\<bar> / 2 ^ 53 + 1 / (2 * grid)"
    using round64_err [of y] by (simp only: abs_le_iff)
  moreover have "y * U = y + \<bar>y\<bar> / 2 ^ 53" using assms by (simp add: algebra_simps)
  ultimately show ?thesis by linarith
qed

lemma round64_upper_grid:
  assumes "U = 1 + 1 / 2 ^ 53" "0 \<le> y" "y * grid \<in> \<int>"
  shows "round64 y \<le> y * U"
proof -
  have "round64 y - y \<le> \<bar>y\<bar> / 2 ^ 53"
    using round64_err_grid [OF assms(3)] by (simp only: abs_le_iff)
  moreover have "y * U = y + \<bar>y\<bar> / 2 ^ 53" using assms by (simp add: algebra_simps)
  ultimately show ?thesis by linarith
qed

lemma round64_lower_grid:
  assumes "U = 1 + 1 / 2 ^ 53" "y * grid \<in> \<int>"
  shows "y - \<bar>y\<bar> * (U - 1) \<le> round64 y"
proof -
  have "- (round64 y - y) \<le> \<bar>y\<bar> / 2 ^ 53"
    using round64_err_grid [OF assms(2)] by (simp only: abs_le_iff)
  moreover have "\<bar>y\<bar> * (U - 1) = \<bar>y\<bar> / 2 ^ 53" using assms by simp
  ultimately show ?thesis by linarith
qed

lemma grid_diff: "isDouble x \<Longrightarrow> isDouble y \<Longrightarrow> (x - y) * grid \<in> \<int>"
  using Ints_diff [OF isDouble_grid isDouble_grid, of x y] by (simp add: algebra_simps)

lemma grid_sum: "isDouble x \<Longrightarrow> (x + round64 y) * grid \<in> \<int>"
  using Ints_add [OF isDouble_grid round64_grid, of x y] by (simp add: algebra_simps)

lemma grid_sum_minus: "isDouble x \<Longrightarrow> (x - round64 y) * grid \<in> \<int>"
  using Ints_diff [OF isDouble_grid round64_grid, of x y] by (simp add: algebra_simps)

lemma slack_numbers:
  fixes U e K :: real
  assumes "U = 1 + 1 / 2 ^ 53" "e = 1 / (2 * grid)" "K = 2 ^ 20"
  shows "U ^ 4 \<le> 1 + 1 / 2 ^ 50" "e * (K * U + 1) * U \<le> 1 / 2 ^ 1050"
    "U ^ 4 + U - 2 \<le> 1 / 2 ^ 50"
  unfolding assms grid_def by (simp_all add: power_divide)

lemma interpolation_slack_up:
  assumes c1: "isDouble c1" "0 < c1" and c2: "isDouble c2" "c1 \<le> c2"
    and a: "0 \<le> a" "a \<le> g" and g: "1 / 2 ^ 20 \<le> g"
  defines "r \<equiv> round64 (c1 + round64 (round64 (a * round64 (c2 - c1)) / g))"
  shows "c1 \<le> r \<and> r \<le> c2 + roundingSlack c2"
proof -
  define U :: real where "U = 1 + 1 / 2 ^ 53"
  define e :: real where "e = 1 / (2 * grid)"
  define K :: real where "K = 2 ^ 20"
  note N = slack_numbers [OF U_def e_def K_def]
  have U: "1 \<le> U" by (simp add: U_def)
  have e: "0 \<le> e" by (simp add: e_def)
  have K: "0 \<le> K" by (simp add: K_def)
  from g have g0: "0 < g" by (rule less_le_trans [rotated]) simp
  have gK: "1 / g \<le> K"
  proof -
    have "1 / g \<le> 1 / (1 / 2 ^ 20)" by (rule divide_left_mono [OF g]) (use g0 in simp_all)
    then show ?thesis by (simp add: K_def)
  qed
  define d where "d = round64 (c2 - c1)"
  define m where "m = round64 (a * d)"
  define q where "q = round64 (m / g)"
  have r: "r = round64 (c1 + q)" by (simp add: r_def q_def m_def d_def)
  have d0: "0 \<le> d" unfolding d_def by (rule round64_nonneg) (use c2 in simp)
  have d1: "d \<le> (c2 - c1) * U" unfolding d_def
    by (rule round64_upper_grid [OF U_def _ grid_diff [OF c2(1) c1(1)]]) (use c2 in simp)
  have m0: "0 \<le> m" unfolding m_def by (rule round64_nonneg) (use a d0 in simp)
  have m1: "m \<le> a * d * U + e" unfolding m_def e_def
    by (rule round64_upper [OF U_def]) (use a d0 in simp)
  have q0: "0 \<le> q" unfolding q_def by (rule round64_nonneg) (use m0 g0 in simp)
  have q1: "q \<le> m / g * U + e" unfolding q_def e_def
    by (rule round64_upper [OF U_def]) (use m0 g0 in simp)
  have qb: "q \<le> (c2 - c1) * U ^ 3 + e * (K * U + 1)"
    using U e K d0 d1 a g0 gK m1 q1 by (rule quotient_bound)
  have "round64 c1 \<le> round64 (c1 + q)" by (rule round64_mono) (use q0 in simp)
  then have low: "c1 \<le> r" using c1(1) by (simp add: r isDouble_def)
  have ru: "r \<le> (c1 + q) * U" unfolding r q_def
    by (rule round64_upper_grid [OF U_def _ grid_sum [OF c1(1)]])
      (use q0 c1 in \<open>simp add: q_def\<close>)
  have "r \<le> c2 * U ^ 4 + e * (K * U + 1) * U"
    by (rule sum_upper [OF U _ c2(2) qb ru]) (use c1 in simp)
  moreover have "c2 * U ^ 4 \<le> c2 * (1 + 1 / 2 ^ 50)"
    by (rule mult_left_mono [OF N(1)]) (use c1 c2 in simp)
  ultimately have "r \<le> c2 * (1 + 1 / 2 ^ 50) + 1 / 2 ^ 1050" using N(2) by linarith
  then have "r \<le> c2 + roundingSlack c2" by (simp add: roundingSlack_def algebra_simps)
  with low show ?thesis ..
qed

lemma interpolation_slack_down:
  assumes c1: "isDouble c1" and c2: "isDouble c2" "0 < c2" "c2 \<le> c1"
    and a: "0 \<le> a" "a \<le> g" and g: "1 / 2 ^ 20 \<le> g"
  defines "r \<equiv> round64 (c1 + round64 (round64 (a * round64 (c2 - c1)) / g))"
  shows "c2 - roundingSlack c1 \<le> r \<and> r \<le> c1"
proof -
  define U :: real where "U = 1 + 1 / 2 ^ 53"
  define e :: real where "e = 1 / (2 * grid)"
  define K :: real where "K = 2 ^ 20"
  note N = slack_numbers [OF U_def e_def K_def]
  have U: "1 \<le> U" by (simp add: U_def)
  have e: "0 \<le> e" by (simp add: e_def)
  have K: "0 \<le> K" by (simp add: K_def)
  from g have g0: "0 < g" by (rule less_le_trans [rotated]) simp
  have gK: "1 / g \<le> K"
  proof -
    have "1 / g \<le> 1 / (1 / 2 ^ 20)" by (rule divide_left_mono [OF g]) (use g0 in simp_all)
    then show ?thesis by (simp add: K_def)
  qed
  define d where "d = round64 (c1 - c2)"
  define m where "m = round64 (a * d)"
  define q where "q = round64 (m / g)"
  have "round64 (c2 - c1) = - d" using round64_minus [of "c1 - c2"] by (simp add: d_def)
  moreover have "round64 (a * - d) = - m" using round64_minus [of "a * d"] by (simp add: m_def)
  moreover have "round64 (- m / g) = - q" using round64_minus [of "m / g"] by (simp add: q_def)
  ultimately have r: "r = round64 (c1 - q)" by (simp add: r_def)
  have d0: "0 \<le> d" unfolding d_def by (rule round64_nonneg) (use c2 in simp)
  have d1: "d \<le> (c1 - c2) * U" unfolding d_def
    by (rule round64_upper_grid [OF U_def _ grid_diff [OF c1 c2(1)]]) (use c2 in simp)
  have m0: "0 \<le> m" unfolding m_def by (rule round64_nonneg) (use a d0 in simp)
  have m1: "m \<le> a * d * U + e" unfolding m_def e_def
    by (rule round64_upper [OF U_def]) (use a d0 in simp)
  have q0: "0 \<le> q" unfolding q_def by (rule round64_nonneg) (use m0 g0 in simp)
  have q1: "q \<le> m / g * U + e" unfolding q_def e_def
    by (rule round64_upper [OF U_def]) (use m0 g0 in simp)
  have qb: "q \<le> (c1 - c2) * U ^ 3 + e * (K * U + 1)"
    using U e K d0 d1 a g0 gK m1 q1 by (rule quotient_bound)
  have "round64 (c1 - q) \<le> round64 c1" by (rule round64_mono) (use q0 in simp)
  then have up: "r \<le> c1" using c1 by (simp add: r isDouble_def)
  have rl: "c1 - q - \<bar>c1 - q\<bar> * (U - 1) \<le> r" unfolding r q_def
    by (rule round64_lower_grid [OF U_def grid_sum_minus [OF c1]])
  have "c2 - c1 * (U ^ 4 + U - 2) - e * (K * U + 1) * U \<le> r"
    by (rule sum_lower [OF U _ c2(3) q0 qb rl]) (use c2 in simp)
  moreover have "c1 * (U ^ 4 + U - 2) \<le> c1 * (1 / 2 ^ 50)"
    by (rule mult_left_mono [OF N(3)]) (use c2 in simp)
  ultimately have "c2 - c1 * (1 / 2 ^ 50) - 1 / 2 ^ 1050 \<le> r" using N(2) by linarith
  then have "c2 - roundingSlack c1 \<le> r" by (simp add: roundingSlack_def algebra_simps)
  then show ?thesis using up ..
qed

lemma roundingSlack_nonneg: "0 \<le> c \<Longrightarrow> 0 \<le> roundingSlack c"
  by (simp add: roundingSlack_def)

lemma roundingSlack_mono: "c \<le> c' \<Longrightarrow> roundingSlack c \<le> roundingSlack c'"
  by (simp add: roundingSlack_def divide_right_mono)

lemma interpolation_slack:
  assumes c1: "isDouble c1" "0 < c1" and c2: "isDouble c2" "0 < c2"
    and a: "0 \<le> a" "a \<le> g" and g: "1 / 2 ^ 20 \<le> g"
  defines "r \<equiv> round64 (c1 + round64 (round64 (a * round64 (c2 - c1)) / g))"
  shows "min c1 c2 - roundingSlack (max c1 c2) \<le> r \<and> r \<le> max c1 c2 + roundingSlack (max c1 c2)"
proof (cases "c1 \<le> c2")
  case True
  from interpolation_slack_up [OF c1 c2(1) True a g]
  have "c1 \<le> r" "r \<le> c2 + roundingSlack c2" by (simp_all add: r_def)
  moreover have "0 \<le> roundingSlack c2" using c2 by (intro roundingSlack_nonneg) simp
  ultimately show ?thesis using True by (simp add: min_def max_def)
next
  case False
  then have le: "c2 \<le> c1" by simp
  from interpolation_slack_down [OF c1(1) c2 le a g]
  have "c2 - roundingSlack c1 \<le> r" "r \<le> c1" by (simp_all add: r_def)
  moreover have "0 \<le> roundingSlack c1" using c1 by (intro roundingSlack_nonneg) simp
  ultimately show ?thesis using False by (simp add: min_def max_def)
qed

lemma toDouble_Finite: "toDouble x = Finite y \<Longrightarrow> y = round64 x \<and> \<bar>round64 x\<bar> < 2 ^ 1024"
  by (simp add: toDouble_def split: if_splits)

lemma toDouble_nonneg:
  "0 \<le> x \<Longrightarrow> toDouble x = PosInf \<and> 2 ^ 1024 \<le> round64 x \<or>
     toDouble x = Finite (round64 x) \<and> round64 x < 2 ^ 1024"
  using round64_nonneg [of x] by (cases "x = 0") (auto simp: toDouble_def)

lemma epsilon_value: "round64 (1 / 1000000) = 4722366482869645 / 2 ^ 72"
  using round64_normal [of 72 "1 / 1000000"] by (simp add: roundEven_def Let_def)

lemma toDouble_epsilon: "toDouble (1 / 1000000) = Finite (4722366482869645 / 2 ^ 72)"
  by (simp add: toDouble_def epsilon_value)

lemma less64_50_ge64:
  assumes "less64 a (Finite 50)" "ge64 b (Finite 50)"
  shows "less64 a b" "\<not> less64 b a"
  using assms by (cases a; cases b; simp)+

lemma isDouble_difference:
  assumes "isDouble c1" "0 < c1" "isDouble c2" "0 < c2"
  shows "sub64 (Finite c2) (Finite c1) = Finite (round64 (c2 - c1))"
proof -
  define h where "h = max c1 c2"
  have h: "round64 h = h" "h < 2 ^ 1024" using assms by (auto simp: h_def max_def isDouble_def)
  have "round64 (c2 - c1) \<le> round64 h" by (rule round64_mono) (use assms in \<open>simp add: h_def\<close>)
  moreover have "round64 (- h) \<le> round64 (c2 - c1)"
    by (rule round64_mono) (use assms in \<open>simp add: h_def\<close>)
  ultimately have "\<bar>round64 (c2 - c1)\<bar> \<le> h" using h(1) by (simp add: round64_minus abs_le_iff)
  with h(2) have "\<bar>round64 (c2 - c1)\<bar> < 2 ^ 1024" by simp
  then show ?thesis by (simp add: sub64_def toDouble_def)
qed

lemma viability_differences:
  assumes v1: "less64 V1 (Finite 50)" and v2: "ge64 V2 (Finite 50)"
    and guard: "\<not> less64 (abs64 (sub64 V2 V1)) (toDouble (1 / 1000000))"
  shows "sub64 V2 V1 = PosInf \<or>
         (\<exists>a g. sub64 (Finite 50) V1 = Finite a \<and> sub64 V2 V1 = Finite g \<and>
                 0 \<le> a \<and> a \<le> g \<and> 1 / 2 ^ 20 \<le> g)"
proof (cases V1)
  case (Finite x1)
  with v1 have x1: "x1 < 50" by simp
  show ?thesis
  proof (cases V2)
    case f2: (Finite x2)
    with v2 have x2: "50 \<le> x2" by simp
    define a where "a = round64 (50 - x1)"
    define g where "g = round64 (x2 - x1)"
    have a0: "0 \<le> a" unfolding a_def by (rule round64_nonneg) (use x1 in simp)
    have ag: "a \<le> g" unfolding a_def g_def by (rule round64_mono) (use x2 in simp)
    have G: "sub64 V2 V1 = toDouble (x2 - x1)" by (simp add: Finite f2 sub64_def)
    have A: "sub64 (Finite 50) V1 = toDouble (50 - x1)" by (simp add: Finite sub64_def)
    from toDouble_nonneg [of "x2 - x1"] x1 x2
    consider "toDouble (x2 - x1) = PosInf" | "toDouble (x2 - x1) = Finite g" "g < 2 ^ 1024"
      by (auto simp: g_def)
    then show ?thesis
    proof cases
      case 1
      then show ?thesis by (simp add: G)
    next
      case 2
      from a0 ag 2(2) have "\<bar>a\<bar> < 2 ^ 1024" by simp
      then have A': "sub64 (Finite 50) V1 = Finite a" by (simp add: A toDouble_def a_def)
      from guard have "4722366482869645 / 2 ^ 72 \<le> \<bar>g\<bar>"
        by (simp add: G 2(1) toDouble_epsilon)
      with a0 ag have "1 / 2 ^ 20 \<le> g" by simp
      with A' G 2(1) a0 ag show ?thesis by simp
    qed
  next
    case PosInf
    then show ?thesis by (simp add: Finite sub64_def)
  next
    case NegInf
    with v2 show ?thesis by simp
  next
    case NaN
    with v2 show ?thesis by simp
  qed
next
  case PosInf
  with v1 show ?thesis by simp
next
  case NegInf
  with v2 show ?thesis by (cases V2) (simp_all add: sub64_def)
next
  case NaN
  with v1 show ?thesis by simp
qed

lemma quotient_by_infinity: "add64 (Finite c) (div64 M PosInf) = Finite r \<Longrightarrow> r = round64 c"
  by (cases M) (auto dest: toDouble_Finite)

lemma finite_steps:
  assumes "add64 (Finite c) (div64 (mul64 (Finite a) (Finite d)) (Finite g)) = Finite r" "g \<noteq> 0"
  shows "r = round64 (c + round64 (round64 (a * d) / g))"
proof (cases "toDouble (a * d)")
  case (Finite m)
  then have m: "m = round64 (a * d)" by (simp add: toDouble_Finite)
  show ?thesis
  proof (cases "toDouble (m / g)")
    case q: (Finite q)
    then have "q = round64 (m / g)" by (simp add: toDouble_Finite)
    with assms Finite q m show ?thesis by (auto dest: toDouble_Finite)
  qed (use assms Finite in simp_all)
qed (use assms in \<open>auto simp: infinity_def split: if_splits\<close>)

lemma interpolate64_slack:
  assumes c1: "isDouble (concentration64 p1)" "0 < concentration64 p1"
    and c2: "isDouble (concentration64 p2)" "0 < concentration64 p2"
    and v1: "less64 (viability64 p1) (Finite 50)" and v2: "ge64 (viability64 p2) (Finite 50)"
    and guard: "\<not> less64 (abs64 (sub64 (viability64 p2) (viability64 p1))) (toDouble (1 / 1000000))"
    and res: "interpolate64 p1 p2 = Finite r"
  shows "min (concentration64 p1) (concentration64 p2)
           - roundingSlack (max (concentration64 p1) (concentration64 p2)) \<le> r \<and>
         r \<le> max (concentration64 p1) (concentration64 p2)
           + roundingSlack (max (concentration64 p1) (concentration64 p2))"
proof -
  note D = isDouble_difference [OF c1 c2]
  from viability_differences [OF v1 v2 guard]
  consider (inf) "sub64 (viability64 p2) (viability64 p1) = PosInf"
    | (fin) a g where "sub64 (Finite 50) (viability64 p1) = Finite a"
        "sub64 (viability64 p2) (viability64 p1) = Finite g" "0 \<le> a" "a \<le> g" "1 / 2 ^ 20 \<le> g"
    by blast
  then show ?thesis
  proof cases
    case inf
    from res have "r = round64 (concentration64 p1)"
      unfolding interpolate64_def inf by (rule quotient_by_infinity)
    with c1 have r: "r = concentration64 p1" by (simp add: isDouble_def)
    have "0 \<le> roundingSlack (max (concentration64 p1) (concentration64 p2))"
      using c1 by (intro roundingSlack_nonneg) simp
    moreover have "min (concentration64 p1) (concentration64 p2) \<le> concentration64 p1"
      "concentration64 p1 \<le> max (concentration64 p1) (concentration64 p2)" by simp_all
    ultimately show ?thesis unfolding r by linarith
  next
    case fin
    from fin(5) have "g \<noteq> 0" by auto
    with res have "r = round64 (concentration64 p1 +
        round64 (round64 (a * round64 (concentration64 p2 - concentration64 p1)) / g))"
      unfolding interpolate64_def D fin(1,2) by (rule finite_steps)
    then show ?thesis using interpolation_slack [OF c1 c2 fin(3,4,5)] by simp
  qed
qed

lemma crossingLoop64_Some:
  "crossingLoop64 ds i = Some pq \<Longrightarrow>
     \<exists>k\<ge>i. k + 1 < length ds \<and> crosses50_64 (ds ! k) (ds ! (k + 1)) \<and>
        (\<forall>j. i \<le> j \<and> j < k \<longrightarrow> \<not> crosses50_64 (ds ! j) (ds ! (j + 1))) \<and>
        pq = orderPair64 (ds ! k) (ds ! (k + 1))"
proof (induction ds i rule: crossingLoop64.induct)
  case (1 ds i)
  show ?case
  proof (cases "i < length ds - 1")
    case False
    with "1.prems" show ?thesis by (simp add: crossingLoop64.simps [of ds i])
  next
    case True
    show ?thesis
    proof (cases "crosses50_64 (ds ! i) (ds ! (i + 1))")
      case c: True
      with True "1.prems" have "pq = orderPair64 (ds ! i) (ds ! (i + 1))"
        by (simp add: crossingLoop64.simps [of ds i])
      with True c show ?thesis by (intro exI [of _ i]) auto
    next
      case c: False
      with True "1.prems" have "crossingLoop64 ds (i + 1) = Some pq"
        by (simp add: crossingLoop64.simps [of ds i])
      from "1.IH" [OF True c this] obtain k where k: "i + 1 \<le> k" "k + 1 < length ds"
        "crosses50_64 (ds ! k) (ds ! (k + 1))"
        "\<forall>j. i + 1 \<le> j \<and> j < k \<longrightarrow> \<not> crosses50_64 (ds ! j) (ds ! (j + 1))"
        "pq = orderPair64 (ds ! k) (ds ! (k + 1))" by blast
      have "\<not> crosses50_64 (ds ! j) (ds ! (j + 1))" if "i \<le> j \<and> j < k" for j
      proof (cases "j = i")
        case True
        with c show ?thesis by simp
      next
        case False
        with that k(4) show ?thesis by simp
      qed
      with k show ?thesis by (intro exI [of _ k]) auto
    qed
  qed
qed

lemma crossingLoop64_first:
  "crossingLoop64 ds 0 = Some pq \<Longrightarrow>
     \<exists>k. firstCrossingAt64 ds k \<and> pq = orderPair64 (ds ! k) (ds ! (k + 1))"
  by (drule crossingLoop64_Some) (auto simp: firstCrossingAt64_def)

lemma rowPoint64_Some:
  "rowPoint64 byRow c i = Inr (Some p) \<Longrightarrow> concentration64 p = c \<and> 0 < c"
  by (auto simp: rowPoint64_def Let_def split: if_splits)

lemma mapRows64_points:
  "mapRows64 byRow cs i = Inr ps \<Longrightarrow> Some p \<in> set ps \<Longrightarrow>
     concentration64 p \<in> set cs \<and> 0 < concentration64 p"
proof (induction cs arbitrary: i ps)
  case Nil
  then show ?case by simp
next
  case (Cons c cs)
  from Cons.prems(1) obtain q qs where q: "rowPoint64 byRow c i = Inr q"
    and qs: "mapRows64 byRow cs (Suc i) = Inr qs" and ps: "ps = q # qs"
    by (auto split: sum.splits)
  from Cons.prems(2) ps consider "q = Some p" | "Some p \<in> set qs" by auto
  then show ?case
  proof cases
    case 1
    with q rowPoint64_Some [of byRow c i p] show ?thesis by simp
  next
    case 2
    from Cons.IH [OF qs 2] show ?thesis by simp
  qed
qed

lemma dataPointsOf64_member: "p \<in> set (dataPointsOf64 ps) \<Longrightarrow> Some p \<in> set ps"
  by (auto simp: dataPointsOf64_def map_filter_def)

lemma sorted_dataPointsOf64: "sorted (map concentration64 (dataPointsOf64 ps))"
  by (simp add: dataPointsOf64_def)

section \<open>The bracket of the crossing in binary64\<close>

lemma calculateIC50_64_Some:
  assumes "calculateIC50_64 wells rcs rowCount units = Inr (Some res)"
  obtains ps p1 p2 where "mapRows64 (viabilitiesByRow wells rowCount) rcs 0 = Inr ps"
    "crossingLoop64 (dataPointsOf64 ps) 0 = Some (p1, p2)"
    "\<not> less64 (abs64 (sub64 (viability64 p2) (viability64 p1))) (toDouble (1 / 1000000))"
    "interpolate64 p1 p2 = Finite (ic50_value res)"
  using assms unfolding calculateIC50_64_def Let_def
  by (auto split: if_splits sum.splits option.splits prod.splits double.splits)

text \<open>
  C10, as the code has it. The value the estimator returns is the result of five rounded
  operations. It lies within rounding error of the closed interval between the
  concentrations of the two data points of the first crossing, and so of the interval
  between the least and the greatest positive row concentration: it is no less than the
  lower end less the \<^const>\<open>roundingSlack\<close> of the upper end, and no more than the upper
  end plus that slack. The row concentrations are finite doubles.
\<close>

theorem calculateIC50_64_near_bracket:
  assumes run: "calculateIC50_64 wells rowConcentrations rowCount units = Inr (Some res)"
    and dbl: "list_all isDouble rowConcentrations"
  shows "\<exists>k. firstCrossingAt64 (doseSeries64 wells rowConcentrations rowCount) k \<and>
           concentration64 (doseSeries64 wells rowConcentrations rowCount ! k)
             - roundingSlack (concentration64 (doseSeries64 wells rowConcentrations rowCount ! (k + 1)))
             \<le> ic50_value res \<and>
           ic50_value res
             \<le> concentration64 (doseSeries64 wells rowConcentrations rowCount ! (k + 1))
               + roundingSlack (concentration64 (doseSeries64 wells rowConcentrations rowCount ! (k + 1))) \<and>
           Min {c \<in> set rowConcentrations. 0 < c}
             - roundingSlack (Max {c \<in> set rowConcentrations. 0 < c}) \<le> ic50_value res \<and>
           ic50_value res
             \<le> Max {c \<in> set rowConcentrations. 0 < c}
               + roundingSlack (Max {c \<in> set rowConcentrations. 0 < c})"
proof -
  let ?P = "{c \<in> set rowConcentrations. 0 < c}"
  from run obtain ps p1 p2
    where m: "mapRows64 (viabilitiesByRow wells rowCount) rowConcentrations 0 = Inr ps"
      and cl: "crossingLoop64 (dataPointsOf64 ps) 0 = Some (p1, p2)"
      and guard: "\<not> less64 (abs64 (sub64 (viability64 p2) (viability64 p1))) (toDouble (1 / 1000000))"
      and val: "interpolate64 p1 p2 = Finite (ic50_value res)"
    by (rule calculateIC50_64_Some)
  define ds where "ds = dataPointsOf64 ps"
  have series: "doseSeries64 wells rowConcentrations rowCount = ds"
    by (simp add: doseSeries64_def m ds_def)
  from crossingLoop64_first [OF cl] obtain k where k: "firstCrossingAt64 ds k"
    and pq: "(p1, p2) = orderPair64 (ds ! k) (ds ! (k + 1))" unfolding ds_def by blast
  from k have len: "k + 1 < length ds" and cr: "crosses50_64 (ds ! k) (ds ! (k + 1))"
    by (simp_all add: firstCrossingAt64_def)
  from cr pq have v: "less64 (viability64 p1) (Finite 50)" "ge64 (viability64 p2) (Finite 50)"
    and pair: "p1 = ds ! k \<and> p2 = ds ! (k + 1) \<or> p1 = ds ! (k + 1) \<and> p2 = ds ! k"
    by (auto simp: crosses50_64_def orderPair64_def split: if_splits dest: less64_50_ge64)
  have point: "concentration64 p \<in> ?P \<and> isDouble (concentration64 p)" if "p \<in> set ds" for p
  proof -
    from that have "Some p \<in> set ps" unfolding ds_def by (rule dataPointsOf64_member)
    from mapRows64_points [OF m this] dbl show ?thesis by (auto simp: list_all_iff)
  qed
  have mem: "ds ! k \<in> set ds" "ds ! (k + 1) \<in> set ds" using len by simp_all
  from pair mem have p1: "p1 \<in> set ds" and p2: "p2 \<in> set ds" by auto
  have le: "concentration64 (ds ! k) \<le> concentration64 (ds ! (k + 1))"
    using sorted_dataPointsOf64 [of ps] len unfolding ds_def [symmetric]
    by (auto simp: sorted_iff_nth_mono dest!: spec [of _ k] spec [of _ "k + 1"])
  from pair le have mm:
    "min (concentration64 p1) (concentration64 p2) = concentration64 (ds ! k)"
    "max (concentration64 p1) (concentration64 p2) = concentration64 (ds ! (k + 1))"
    by (auto simp: min_def max_def)
  have br: "concentration64 (ds ! k) - roundingSlack (concentration64 (ds ! (k + 1))) \<le> ic50_value res"
    "ic50_value res \<le> concentration64 (ds ! (k + 1)) + roundingSlack (concentration64 (ds ! (k + 1)))"
    using interpolate64_slack [OF _ _ _ _ v guard val] point [OF p1] point [OF p2]
    unfolding mm by simp_all
  have fin: "finite ?P" by simp
  from point [OF mem(1)] point [OF mem(2)]
  have "Min ?P \<le> concentration64 (ds ! k)" "concentration64 (ds ! (k + 1)) \<le> Max ?P"
    using fin by (auto intro: Min_le Max_ge)
  moreover from this(2)
  have "roundingSlack (concentration64 (ds ! (k + 1))) \<le> roundingSlack (Max ?P)"
    by (rule roundingSlack_mono)
  ultimately have "Min ?P - roundingSlack (Max ?P) \<le> ic50_value res"
    "ic50_value res \<le> Max ?P + roundingSlack (Max ?P)" using br by linarith+
  with br k show ?thesis unfolding series by (intro exI [of _ k]) simp
qed

text \<open>The estimator at two rows with mean viabilities 50 and 0, at the doubles next to 0.01 and 0.1.\<close>

lemma toDouble_bounded:
  assumes "\<bar>x\<bar> < 2 ^ 1000"
  shows "toDouble x = Finite (round64 x)"
proof -
  have "\<bar>round64 x\<bar> \<le> \<bar>round64 x - x\<bar> + \<bar>x\<bar>" by simp
  also have "\<dots> \<le> \<bar>x\<bar> / 2 ^ 53 + 1 / (2 * grid) + \<bar>x\<bar>" using round64_err [of x] by simp
  also have "\<dots> < 2 ^ 1000 / 2 ^ 53 + 1 / (2 * grid) + 2 ^ 1000"
    using assms by (simp add: divide_strict_right_mono add_strict_mono)
  also have "\<dots> < 2 ^ 1024" by (simp add: grid_def)
  finally show ?thesis by (simp add: toDouble_def)
qed

lemma toDouble_normal:
  assumes j: "j \<le> 1074" and lo: "2 ^ 52 \<le> \<bar>x\<bar> * 2 ^ j" and hi: "\<bar>x\<bar> * 2 ^ j < 2 ^ 53"
  shows "toDouble x = Finite (of_int (roundEven (x * 2 ^ j)) / 2 ^ j)"
proof -
  have "\<bar>x\<bar> * 1 \<le> \<bar>x\<bar> * 2 ^ j" by (rule mult_left_mono) simp_all
  with hi have "\<bar>x\<bar> < 2 ^ 53" by simp
  also have "(2 :: real) ^ 53 < 2 ^ 1000" by (rule power_strict_increasing) simp_all
  finally show ?thesis using round64_normal [OF assms] by (simp only: toDouble_bounded)
qed

lemma toDouble_int: "\<bar>n\<bar> < 2 ^ 53 \<Longrightarrow> toDouble (of_int n) = Finite (of_int n)"
proof -
  assume n: "\<bar>n\<bar> < 2 ^ 53"
  then have "\<bar>of_int n :: real\<bar> < of_int (2 ^ 53)" unfolding of_int_abs [symmetric] by (simp only: of_int_less_iff)
  also have "(of_int (2 ^ 53) :: real) < 2 ^ 1000" by simp
  finally show ?thesis using round64_int [OF n] by (simp only: toDouble_bounded)
qed

lemma toDouble_small: "toDouble 0 = Finite 0" "toDouble 50 = Finite 50" "toDouble 100 = Finite 100"
  using toDouble_int [of 0] toDouble_int [of 50] toDouble_int [of 100] by simp_all

lemma centi_deci: "0 < centi" "centi < deci" "round64 (1 / 100) = centi" "round64 (1 / 10) = deci"
  using round64_normal [of 59 "1 / 100"] round64_normal [of 56 "1 / 10"]
  by (simp_all add: centi_def deci_def roundEven_def Let_def)

lemma isDouble_centi_deci: "isDouble centi" "isDouble deci"
  using round64_normal [of 59 centi] round64_normal [of 56 deci]
  by (simp_all add: isDouble_def centi_def deci_def roundEven_def Let_def)

lemma twoRow_series:
  "mapRows64 (viabilitiesByRow twoRowWells 2) [centi, deci] 0 =
     Inr [Some \<lparr>concentration64 = centi, viability64 = Finite 50\<rparr>,
          Some \<lparr>concentration64 = deci, viability64 = Finite 0\<rparr>]"
proof -
  have byRow: "viabilitiesByRow twoRowWells 2 = [[100, 0], [0, 0]]"
    by (simp add: viabilitiesByRow_def twoRowWells_def exampleWell_def pushViability_def
        numeral_2_eq_2)
  show ?thesis
    unfolding byRow using centi_deci(1,2)
    by (simp add: rowPoint64_def toDouble_small)
qed

lemma twoRow_points:
  "doseSeries64 twoRowWells [centi, deci] 2 =
     [\<lparr>concentration64 = centi, viability64 = Finite 50\<rparr>,
      \<lparr>concentration64 = deci, viability64 = Finite 0\<rparr>]"
  unfolding doseSeries64_def twoRow_series using centi_deci(2)
  by (simp add: dataPointsOf64_def List.map_filter_simps)

lemma twoRow_interpolation:
  "interpolate64 \<lparr>concentration64 = deci, viability64 = Finite 0\<rparr>
     \<lparr>concentration64 = centi, viability64 = Finite 50\<rparr> = Finite (720575940379278 / 2 ^ 56)"
proof -
  have d: "toDouble (centi - deci) = Finite (- 6485183463413515 / 2 ^ 56)"
    using toDouble_normal [of 56 "centi - deci"]
    by (simp add: centi_def deci_def roundEven_def Let_def)
  have m: "toDouble (50 * (- 6485183463413515 / 2 ^ 56)) = Finite (- 5066549580791809 / 2 ^ 50)"
    using toDouble_normal [of 50 "50 * (- 6485183463413515 / 2 ^ 56)"]
    by (simp add: roundEven_def Let_def)
  have q: "toDouble (- 5066549580791809 / 2 ^ 50 / 50) = Finite (- 6485183463413516 / 2 ^ 56)"
    using toDouble_normal [of 56 "- 5066549580791809 / 2 ^ 50 / 50"]
    by (simp add: roundEven_def Let_def)
  have r: "toDouble (deci + - 6485183463413516 / 2 ^ 56) = Finite (720575940379278 / 2 ^ 56)"
    using toDouble_normal [of 59 "deci + - 6485183463413516 / 2 ^ 56"]
    by (simp add: deci_def roundEven_def Let_def)
  have a: "sub64 (Finite 50) (Finite 0) = Finite 50" by (simp add: sub64_def toDouble_small)
  have "sub64 (Finite centi) (Finite deci) = Finite (- 6485183463413515 / 2 ^ 56)"
    using d by (simp add: sub64_def)
  then show ?thesis
    unfolding interpolate64_def using a m q r
    by (simp only: DataPoint64.simps mul64.simps div64.simps add64.simps) simp
qed

lemma twoRow_run:
  "calculateIC50_64 twoRowWells [centi, deci] 2 [] =
     Inr (Some \<lparr>ic50_value = 720575940379278 / 2 ^ 56, ic50_units = []\<rparr>)"
proof -
  let ?p = "\<lparr>concentration64 = centi, viability64 = Finite 50\<rparr>"
  let ?q = "\<lparr>concentration64 = deci, viability64 = Finite 0\<rparr>"
  have ds: "dataPointsOf64 [Some ?p, Some ?q] = [?p, ?q]"
    using centi_deci(2) by (simp add: dataPointsOf64_def List.map_filter_simps)
  have cl: "crossingLoop64 [?p, ?q] 0 = Some (?q, ?p)"
    by (subst crossingLoop64.simps) (simp add: crosses50_64_def orderPair64_def)
  have guard: "\<not> less64 (abs64 (sub64 (Finite 50) (Finite 0))) (toDouble (1 / 1000000))"
    by (simp add: sub64_def toDouble_small toDouble_epsilon)
  show ?thesis
    unfolding calculateIC50_64_def twoRow_series using centi_deci(1,2) guard
    by (simp add: ds cl twoRow_interpolation)
qed

theorem calculateIC50_64_near_bracket_witness:
  "calculateIC50_64 twoRowWells [centi, deci] 2 [] =
     Inr (Some \<lparr>ic50_value = 720575940379278 / 2 ^ 56, ic50_units = []\<rparr>) \<and>
   list_all isDouble [centi, deci] \<and>
   (\<exists>k. firstCrossingAt64 (doseSeries64 twoRowWells [centi, deci] 2) k \<and>
      concentration64 (doseSeries64 twoRowWells [centi, deci] 2 ! k)
        - roundingSlack (concentration64 (doseSeries64 twoRowWells [centi, deci] 2 ! (k + 1)))
        \<le> 720575940379278 / 2 ^ 56 \<and>
      720575940379278 / 2 ^ 56
        \<le> concentration64 (doseSeries64 twoRowWells [centi, deci] 2 ! (k + 1))
          + roundingSlack (concentration64 (doseSeries64 twoRowWells [centi, deci] 2 ! (k + 1))) \<and>
      Min {c \<in> set [centi, deci]. 0 < c} - roundingSlack (Max {c \<in> set [centi, deci]. 0 < c})
        \<le> 720575940379278 / 2 ^ 56 \<and>
      720575940379278 / 2 ^ 56
        \<le> Max {c \<in> set [centi, deci]. 0 < c} + roundingSlack (Max {c \<in> set [centi, deci]. 0 < c}))"
proof -
  have dbl: "list_all isDouble [centi, deci]" by (simp add: isDouble_centi_deci)
  show ?thesis
    using twoRow_run dbl calculateIC50_64_near_bracket [OF twoRow_run dbl] by simp
qed

text \<open>
  The interval itself can be missed. For two rows with mean viabilities 50 and 0 at the
  doubles next to 0.01 and 0.1 the pair of the crossing is \<open>p1 = (0.1, 0)\<close>,
  \<open>p2 = (0.01, 50)\<close>, and line 189 returns \<open>720575940379278 / 2\<^sup>5\<^sup>6\<close>, that is
  0.009999999999999981: eleven units in the last place below the lower concentration.
\<close>

theorem calculateIC50_64_below_bracket:
  "round64 (1 / 100) = centi \<and> round64 (1 / 10) = deci \<and>
   doseSeries64 twoRowWells [centi, deci] 2 =
     [\<lparr>concentration64 = centi, viability64 = Finite 50\<rparr>,
      \<lparr>concentration64 = deci, viability64 = Finite 0\<rparr>] \<and>
   calculateIC50_64 twoRowWells [centi, deci] 2 [] =
     Inr (Some \<lparr>ic50_value = 720575940379278 / 2 ^ 56, ic50_units = []\<rparr>) \<and>
   720575940379278 / 2 ^ 56 < centi \<and> centi < deci"
  using centi_deci twoRow_points twoRow_run by (simp add: centi_def)

text \<open>In exact arithmetic the same rows give the lower concentration itself.\<close>

lemma twoRow_exact:
  "calculateIC50 twoRowWells [centi, deci] 2 [] =
     Inr (Some \<lparr>ic50_value = centi, ic50_units = []\<rparr>)"
  by code_simp

section \<open>Properties of the pixel sampler\<close>

lemma length_concat_fixed:
  "(\<And>k. length (f k) = m) \<Longrightarrow> length (concat (map f [0..<n])) = m * n"
  by (induction n) (auto simp: algebra_simps)

lemma nth_concat_fixed:
  assumes len: "\<And>k. length (f k) = m" and j: "j < n" and c: "c < m"
  shows "concat (map f [0..<n]) ! (m * j + c) = f j ! c"
  using j
proof (induction n)
  case 0
  then show ?case by simp
next
  case (Suc n)
  have L: "length (concat (map f [0..<n])) = m * n" using len by (rule length_concat_fixed)
  show ?case
  proof (cases "j < n")
    case True
    then have "m * j + c < m * n"
    proof -
      have "m * j + c < m * j + m" using c by simp
      also have "\<dots> = m * Suc j" by simp
      also have "\<dots> \<le> m * n" using True by (intro mult_le_mono2) simp
      finally show ?thesis .
    qed
    then show ?thesis using Suc.IH [OF True] L by (simp add: nth_append)
  next
    case False
    with Suc.prems have "j = n" by simp
    then show ?thesis using L c len by (simp add: nth_append)
  qed
qed

lemma pixelLoop_from:
  assumes "length data = 4 * n"
  shows "k \<le> n \<Longrightarrow> pixelLoop data radius (4 * k) pixels =
           pixels @ concat (map (\<lambda>j. if maskAt radius j then [rgbOf data j] else []) [k..<n])"
proof (induction "n - k" arbitrary: k pixels)
  case 0
  then have "k = n" by simp
  then show ?case using assms by (subst pixelLoop.simps) simp
next
  case (Suc d)
  then have k: "k < n" and d: "d = n - Suc k" by simp_all
  have lt: "4 * k < length data" using k assms by simp
  have step: "pixelLoop data radius (4 * k) pixels =
      pixelLoop data radius (4 * Suc k)
        (if maskAt radius k then pixels @ [rgbOf data k] else pixels)"
  proof -
    have e: "4 * Suc k = 4 * k + 4" by simp
    show ?thesis
      unfolding e using lt by (subst pixelLoop.simps) (simp add: Let_def maskAt_def rgbOf_def)
  qed
  have "pixelLoop data radius (4 * Suc k) (if maskAt radius k then pixels @ [rgbOf data k] else pixels)
      = (if maskAt radius k then pixels @ [rgbOf data k] else pixels)
          @ concat (map (\<lambda>j. if maskAt radius j then [rgbOf data j] else []) [Suc k..<n])"
    using Suc.hyps(1) [OF d] k by simp
  then show ?case
    using step k by (simp add: upt_conv_Cons)
qed

lemma maskAt_inDisk:
  assumes "0 < r"
  shows "maskAt r j \<longleftrightarrow> inDisk r (int j mod (2 * r)) (int j div (2 * r))"
proof -
  let ?a = "(int j mod (r * 2) - r) ^ 2 + (int j div (r * 2) - r) ^ 2"
  have "sqrt (real_of_int ?a) \<le> real_of_int r \<longleftrightarrow> sqrt (real_of_int ?a) \<le> sqrt ((real_of_int r)\<^sup>2)"
    using assms by simp
  also have "\<dots> \<longleftrightarrow> real_of_int ?a \<le> (real_of_int r)\<^sup>2"
    by (rule real_sqrt_le_iff)
  also have "\<dots> \<longleftrightarrow> ?a \<le> r ^ 2"
    by (metis of_int_le_iff of_int_power)
  finally show ?thesis by (simp add: maskAt_def inDisk_def mult.commute)
qed

lemma concat_flat_nested:
  "concat (map g [0..<h * w]) =
   concat (map (\<lambda>py. concat (map (\<lambda>px. g (py * w + px)) [0..<w])) [0..<h])"
proof (induction h)
  case 0
  then show ?case by simp
next
  case (Suc h)
  have "[0..<Suc h * w] = [0..<h * w] @ [h * w..<h * w + w]"
    by (metis add.commute le_add1 mult_Suc upt_add_eq_append zero_le)
  moreover have "[h * w..<h * w + w] = map (\<lambda>i. i + h * w) [0..<w]"
    by (simp add: map_add_upt add.commute)
  then have "map g [h * w..<h * w + w] = map (\<lambda>px. g (h * w + px)) [0..<w]"
    by (simp add: o_def add.commute)
  ultimately show ?case using Suc by simp
qed


lemma length_pixelBytes: "length (pixelBytes ctx px py) = 4"
  by (simp add: pixelBytes_def split: prod.splits)

lemma rgbOf_pixelBytes:
  assumes "j < n"
  shows "rgbOf (concat (map (\<lambda>k. pixelBytes ctx (X k) (Y k)) [0..<n])) j = rgbAt ctx (X j) (Y j)"
proof -
  let ?f = "\<lambda>k. pixelBytes ctx (X k) (Y k)"
  have len: "\<And>k. length (?f k) = 4" by (rule length_pixelBytes)
  have n: "\<And>c. c < 4 \<Longrightarrow> concat (map ?f [0..<n]) ! (4 * j + c) = ?f j ! c"
    using nth_concat_fixed [of ?f 4 j n] len assms by simp
  have "concat (map ?f [0..<n]) ! (4 * j) = ?f j ! 0" using n [of 0] by simp
  moreover have "concat (map ?f [0..<n]) ! (4 * j + 1) = ?f j ! 1" using n [of 1] by simp
  moreover have "concat (map ?f [0..<n]) ! (4 * j + 2) = ?f j ! 2" using n [of 2] by simp
  ultimately show ?thesis
    by (simp add: rgbOf_def rgbAt_def pixelBytes_def black_def split: prod.splits)
qed

lemma concat_map_cong_upt:
  "(\<And>j. j < n \<Longrightarrow> f j = g j) \<Longrightarrow> concat (map f [0..<n]) = concat (map g [0..<n])"
  by (rule arg_cong [where f = concat]) simp

lemma getImageData_readable:
  assumes "0 < sw"
  shows "getImageData ctx sx sy sw sw =
     (if readable ctx sx sy sw
      then Inr (concat (map (\<lambda>k. pixelBytes ctx (sx + int (k mod nat sw)) (sy + int (k div nat sw)))
                  [0..<nat sw * nat sw]))
      else if \<not> (isLong sx \<and> isLong sy \<and> isLong sw) then Inl TypeError
      else Inl SecurityError)"
  using assms by (auto simp: getImageData_def readable_def)

lemma pixelLoop_square:
  assumes r: "0 < r"
  shows "pixelLoop (concat (map (\<lambda>k. pixelBytes ctx (sx + int (k mod nat (2 * r))) (sy + int (k div nat (2 * r))))
                  [0..<nat (2 * r) * nat (2 * r)])) r 0 [] =
         map (\<lambda>(px, py). rgbAt ctx (sx + px) (sy + py)) (diskOffsets r)"
proof -
  let ?w = "nat (2 * r)"
  let ?X = "\<lambda>k. sx + int (k mod ?w)" and ?Y = "\<lambda>k. sy + int (k div ?w)"
  let ?data = "concat (map (\<lambda>k. pixelBytes ctx (?X k) (?Y k)) [0..<?w * ?w])"
  let ?g = "\<lambda>j. if inDisk r (int (j mod ?w)) (int (j div ?w)) then [rgbAt ctx (?X j) (?Y j)] else []"
  have w: "int ?w = 2 * r" "0 < ?w" using r by simp_all
  have len: "length ?data = 4 * (?w * ?w)"
    using length_concat_fixed [of "\<lambda>k. pixelBytes ctx (?X k) (?Y k)" 4 "?w * ?w"]
    by (simp add: length_pixelBytes)
  have "pixelLoop ?data r 0 [] =
      concat (map (\<lambda>j. if maskAt r j then [rgbOf ?data j] else []) [0..<?w * ?w])"
    using pixelLoop_from [OF len, of 0 r "[]"] by simp
  also have "\<dots> = concat (map ?g [0..<?w * ?w])"
  proof (rule concat_map_cong_upt)
    fix j assume j: "j < ?w * ?w"
    have m: "maskAt r j \<longleftrightarrow> inDisk r (int (j mod ?w)) (int (j div ?w))"
      using maskAt_inDisk [OF r, of j] w by (simp add: zmod_int zdiv_int)
    show "(if maskAt r j then [rgbOf ?data j] else []) = ?g j"
      using m rgbOf_pixelBytes [OF j, of ctx ?X ?Y] by simp
  qed
  also have "\<dots> = concat (map (\<lambda>py. concat (map (\<lambda>px. ?g (py * ?w + px)) [0..<?w])) [0..<?w])"
    by (rule concat_flat_nested)
  also have "\<dots> = concat (map (\<lambda>py. concat (map (\<lambda>px.
        if inDisk r (int px) (int py) then [rgbAt ctx (sx + int px) (sy + int py)] else [])
        [0..<?w])) [0..<?w])"
  proof (rule concat_map_cong_upt)
    fix py assume "py < ?w"
    show "concat (map (\<lambda>px. ?g (py * ?w + px)) [0..<?w]) =
          concat (map (\<lambda>px. if inDisk r (int px) (int py)
             then [rgbAt ctx (sx + int px) (sy + int py)] else []) [0..<?w])"
    proof (rule concat_map_cong_upt)
      fix px assume px: "px < ?w"
      then have "(py * ?w + px) mod ?w = px" "(py * ?w + px) div ?w = py" by simp_all
      then show "?g (py * ?w + px) =
          (if inDisk r (int px) (int py) then [rgbAt ctx (sx + int px) (sy + int py)] else [])"
        by simp
    qed
  qed
  also have "\<dots> = map (\<lambda>(px, py). rgbAt ctx (sx + px) (sy + py)) (diskOffsets r)"
    by (simp add: diskOffsets_def map_concat o_def if_distrib [of "map _"] cong: if_cong)
  finally show ?thesis .
qed

lemma getPixelData_eq:
  "getPixelData ctx x y radius0 =
     (let r = max 1 (js_round radius0);
          sx = js_round (x - real_of_int r);
          sy = js_round (y - real_of_int r)
      in if readable ctx sx sy (2 * r)
         then map (\<lambda>(px, py). rgbAt ctx (sx + px) (sy + py)) (diskOffsets r)
         else [])"
proof -
  define r where "r = max 1 (js_round radius0)"
  have r: "0 < r" by (simp add: r_def)
  then have r2: "0 < r * 2" by simp
  show ?thesis
    unfolding getPixelData_def Let_def r_def [symmetric]
    using pixelLoop_square [OF r, of ctx] getImageData_readable [OF r2, of ctx]
    by (simp add: mult.commute)
qed


lemma diskOffsets_1: "diskOffsets 1 = [(1, 0), (0, 1), (1, 1)]"
  by (simp add: diskOffsets_def inDisk_def upt_conv_Cons numeral_2_eq_2)

lemma diskOffsets_2:
  "diskOffsets 2 = [(2, 0), (1, 1), (2, 1), (3, 1), (0, 2), (1, 2), (2, 2), (3, 2), (1, 3), (2, 3), (3, 3)]"
  by code_simp

lemma center_in_diskOffsets:
  assumes "0 < r"
  shows "(r, r) \<in> set (diskOffsets r)"
proof -
  have "nat r < nat (2 * r)" using assms by simp
  moreover have "inDisk r (int (nat r)) (int (nat r))" using assms by (simp add: inDisk_def)
  moreover have "int (nat r) = r" using assms by simp
  ultimately show ?thesis
    by (auto simp: diskOffsets_def intro!: bexI [of _ "nat r"])
qed

lemma map_all_black:
  "list_all (\<lambda>(px, py). \<not> inBounds ctx (sx + px) (sy + py)) offs \<Longrightarrow>
   map (\<lambda>(px, py). rgbAt ctx (sx + px) (sy + py)) offs = replicate (length offs) black"
  by (induction offs) (auto simp: rgbAt_def)

text \<open>
  C6, as the code has it. The sampler rounds the radius to the nearest integer \<open>r\<close>, at
  least 1, reads the square of \<open>2r\<close> by \<open>2r\<close> pixels whose first pixel is
  \<open>(round (x - r), round (y - r))\<close>, and returns row by row the pixels at the
  offsets \<open>(px, py)\<close> with \<open>(px - r)\<^sup>2 + (py - r)\<^sup>2 \<le> r\<^sup>2\<close>. A pixel of the square
  outside the image is returned as black; when the read throws the result is empty.
\<close>

theorem getPixelData_disk:
  "getPixelData ctx x y radius0 =
     (let r = max 1 (js_round radius0);
          sx = js_round (x - real_of_int r);
          sy = js_round (y - real_of_int r)
      in if readable ctx sx sy (2 * r)
         then concat (map (\<lambda>py. concat (map (\<lambda>px.
                if (int px - r) ^ 2 + (int py - r) ^ 2 \<le> r ^ 2
                then [rgbAt ctx (sx + int px) (sy + int py)] else [])
                [0..<nat (2 * r)])) [0..<nat (2 * r)])
         else [])"
  by (simp add: getPixelData_eq Let_def diskOffsets_def inDisk_def map_concat o_def
      if_distrib [of "map _"] cong: if_cong)

text \<open>
  As the specification words it, the statement fails: around the center \<open>(2, 2)\<close> with radius 1
  the disk of the specification holds five pixels, the sampler returns three of them (the
  square ends before the column and the row at \<open>center + radius\<close>); and a radius of 1.5
  is rounded to 2, not floored to 1.
\<close>

theorem getPixelData_disk_counterexample:
  "getPixelData demoCanvas 2 2 1 =
     [\<lparr>rgb_r = 2, rgb_g = 1, rgb_b = 0\<rparr>, \<lparr>rgb_r = 1, rgb_g = 2, rgb_b = 0\<rparr>,
      \<lparr>rgb_r = 2, rgb_g = 2, rgb_b = 0\<rparr>] \<and>
   sampleSpec demoCanvas 2 2 1 =
     [\<lparr>rgb_r = 2, rgb_g = 1, rgb_b = 0\<rparr>, \<lparr>rgb_r = 1, rgb_g = 2, rgb_b = 0\<rparr>,
      \<lparr>rgb_r = 2, rgb_g = 2, rgb_b = 0\<rparr>, \<lparr>rgb_r = 3, rgb_g = 2, rgb_b = 0\<rparr>,
      \<lparr>rgb_r = 2, rgb_g = 3, rgb_b = 0\<rparr>] \<and>
   set (getPixelData demoCanvas 2 2 1) \<noteq> set (sampleSpec demoCanvas 2 2 1) \<and>
   length (getPixelData demoCanvas 2 2 1.5) = 11 \<and>
   length (sampleSpec demoCanvas 2 2 1.5) = 5"
proof -
  have g1: "getPixelData demoCanvas 2 2 1 =
     [\<lparr>rgb_r = 2, rgb_g = 1, rgb_b = 0\<rparr>, \<lparr>rgb_r = 1, rgb_g = 2, rgb_b = 0\<rparr>,
      \<lparr>rgb_r = 2, rgb_g = 2, rgb_b = 0\<rparr>]"
    by (simp add: getPixelData_eq js_round_def Let_def readable_def isLong_def demoCanvas_def
        diskOffsets_1 rgbAt_def inBounds_def)
  have s1: "sampleSpec demoCanvas 2 2 1 =
     [\<lparr>rgb_r = 2, rgb_g = 1, rgb_b = 0\<rparr>, \<lparr>rgb_r = 1, rgb_g = 2, rgb_b = 0\<rparr>,
      \<lparr>rgb_r = 2, rgb_g = 2, rgb_b = 0\<rparr>, \<lparr>rgb_r = 3, rgb_g = 2, rgb_b = 0\<rparr>,
      \<lparr>rgb_r = 2, rgb_g = 3, rgb_b = 0\<rparr>]"
    by code_simp
  have g2: "length (getPixelData demoCanvas 2 2 1.5) = 11"
    by (simp add: getPixelData_eq js_round_def Let_def readable_def isLong_def demoCanvas_def
        diskOffsets_2 rgbAt_def inBounds_def)
  have s2: "length (sampleSpec demoCanvas 2 2 1.5) = 5"
    by code_simp
  have "\<lparr>rgb_r = 3, rgb_g = 2, rgb_b = 0\<rparr> \<in> set (sampleSpec demoCanvas 2 2 1)"
    unfolding s1 by simp
  moreover have "\<lparr>rgb_r = 3, rgb_g = 2, rgb_b = 0\<rparr> \<notin> set (getPixelData demoCanvas 2 2 1)"
    unfolding g1 by simp
  ultimately have "set (getPixelData demoCanvas 2 2 1) \<noteq> set (sampleSpec demoCanvas 2 2 1)"
    by blast
  with g1 s1 g2 s2 show ?thesis by blast
qed

text \<open>
  C9, as the code has it. The sampler never raises: a read that throws is caught and gives
  the empty sequence. When the read succeeds the result is not empty and its length
  depends on the rounded radius alone, because the pixels of the square outside the image
  are returned as black, not left out; with the whole disk outside the image the result
  is that many black pixels.
\<close>

theorem getPixelData_out_of_bounds:
  "(let r = max 1 (js_round radius0);
        sx = js_round (x - real_of_int r);
        sy = js_round (y - real_of_int r)
    in if readable ctx sx sy (2 * r)
       then getPixelData ctx x y radius0 \<noteq> [] \<and>
            length (getPixelData ctx x y radius0) = length (diskOffsets r) \<and>
            (squareOutside ctx sx sy r \<longrightarrow>
               getPixelData ctx x y radius0 = replicate (length (diskOffsets r)) black)
       else getPixelData ctx x y radius0 = [])"
proof -
  define r where "r = max 1 (js_round radius0)"
  have r: "0 < r" by (simp add: r_def)
  have ne: "diskOffsets r \<noteq> []" using center_in_diskOffsets [OF r] by auto
  show ?thesis
    unfolding Let_def r_def [symmetric]
    using ne by (auto simp: getPixelData_eq Let_def r_def [symmetric] squareOutside_def map_all_black)
qed

theorem getPixelData_out_of_bounds_witness:
  "squareOutside demoCanvas (- 12) (- 12) 2 \<and>
   getPixelData demoCanvas (- 10) (- 10) 2 = replicate 11 black \<and>
   getPixelData (demoCanvas \<lparr>origin_clean := False\<rparr>) 2 2 2 = []"
proof -
  have sq: "squareOutside demoCanvas (- 12) (- 12) 2"
    by (simp add: squareOutside_def diskOffsets_2 inBounds_def demoCanvas_def)
  have rd: "readable demoCanvas (- 12) (- 12) 4"
    by (simp add: readable_def isLong_def demoCanvas_def)
  have nr: "\<not> readable (demoCanvas \<lparr>origin_clean := False\<rparr>) 0 0 4"
    by (simp add: readable_def)
  show ?thesis
    using getPixelData_out_of_bounds [of 2 "- 10" "- 10" demoCanvas]
      getPixelData_out_of_bounds [of 2 2 2 "demoCanvas \<lparr>origin_clean := False\<rparr>"] sq rd nr
    by (simp add: js_round_def Let_def diskOffsets_2 eval_nat_numeral)
qed

text \<open>
  As the specification words it, the statement fails: with the whole disk outside a one-pixel
  image the specification's sampler has nothing to return, and the code returns three
  black pixels.
\<close>

theorem getPixelData_out_of_bounds_counterexample:
  "sampleSpec tinyCanvas 100 100 1 = [] \<and>
   getPixelData tinyCanvas 100 100 1 = [black, black, black]"
proof -
  have "getPixelData tinyCanvas 100 100 1 = [black, black, black]"
    by (simp add: getPixelData_eq js_round_def Let_def readable_def isLong_def tinyCanvas_def
        diskOffsets_1 rgbAt_def inBounds_def)
  moreover have "sampleSpec tinyCanvas 100 100 1 = []"
    by code_simp
  ultimately show ?thesis by simp
qed


section \<open>Properties of the robust color estimator\<close>

lemma getRobustAverageColor_many:
  assumes "2 \<le> length pixels"
  shows "getRobustAverageColor pixels =
           labToRgb \<lparr>lab_l = medianSpec (map (\<lambda>p. lab_l (rgbToLab p)) pixels),
                     lab_a = medianSpec (map (\<lambda>p. lab_a (rgbToLab p)) pixels),
                     lab_b = medianSpec (map (\<lambda>p. lab_b (rgbToLab p)) pixels)\<rparr>"
proof -
  let ?n = "length pixels"
  have n: "?n \<noteq> 0" "?n \<noteq> 1" using assms by auto
  have odd: "odd ?n \<Longrightarrow> (?n + 1) div 2 - 1 = ?n div 2" by (auto elim!: oddE)
  have ev: "?n div 2 + 1 - 1 = ?n div 2" by simp
  show ?thesis
    using n odd
    by (simp add: getRobustAverageColor_def medianSpec_def orderStat_def Let_def o_def
        even_iff_mod_2_eq_zero [symmetric])
qed

text \<open>
  C5. On no pixels the estimator returns black, on one pixel that pixel as it is, and on two
  or more the color that \<^const>\<open>labToRgb\<close> gives for the three medians, each taken over
  its own channel of the pixels' Lab values.
\<close>

theorem getRobustAverageColor_median:
  "getRobustAverageColor [] = \<lparr>rgb_r = 0, rgb_g = 0, rgb_b = 0\<rparr> \<and>
   getRobustAverageColor [p] = p \<and>
   (2 \<le> length pixels \<longrightarrow>
      getRobustAverageColor pixels =
        labToRgb \<lparr>lab_l = medianSpec (map (\<lambda>p. lab_l (rgbToLab p)) pixels),
                  lab_a = medianSpec (map (\<lambda>p. lab_a (rgbToLab p)) pixels),
                  lab_b = medianSpec (map (\<lambda>p. lab_b (rgbToLab p)) pixels)\<rparr>)"
  using getRobustAverageColor_many [of pixels]
  by (simp add: getRobustAverageColor_def)

theorem getRobustAverageColor_median_witness:
  "2 \<le> length demoPixels \<and>
   getRobustAverageColor demoPixels =
     labToRgb \<lparr>lab_l = medianSpec (map (\<lambda>p. lab_l (rgbToLab p)) demoPixels),
               lab_a = medianSpec (map (\<lambda>p. lab_a (rgbToLab p)) demoPixels),
               lab_b = medianSpec (map (\<lambda>p. lab_b (rgbToLab p)) demoPixels)\<rparr>"
proof -
  have h: "2 \<le> length demoPixels" by (simp add: demoPixels_def)
  show ?thesis
    using h getRobustAverageColor_median [of undefined demoPixels] by simp
qed

lemma medianSpec_examples:
  "medianSpec [5, 1, 9] = 5" "medianSpec [4, 1, 9, 2] = 3"
  by (simp_all add: medianSpec_def orderStat_def)

section \<open>Properties of the plate analyzer\<close>

lemma foldl_push: "foldl (\<lambda>results c. results @ [f c]) acc xs = acc @ map f xs"
  by (induction xs arbitrary: acc) auto

lemma colLoop_eq: "colLoop body colCount rw results = results @ map (body rw) [0..<colCount]"
  by (simp add: colLoop_def foldl_push)

lemma foldl_rows:
  "foldl (\<lambda>results rw. results @ g rw) acc rs = acc @ concat (map g rs)"
  by (induction rs arbitrary: acc) auto

lemma rowLoop_eq:
  "rowLoop body rowCount colCount =
     concat (map (\<lambda>rw. map (body rw) [0..<colCount]) [0..<rowCount])"
  by (simp add: rowLoop_def colLoop_eq foldl_rows)

lemma set_rowLoop_eq:
  "set (rowLoop body rowCount colCount) = (\<Union>rw\<in>{..<rowCount}. body rw ` {..<colCount})"
  by (simp add: rowLoop_eq atLeast0LessThan)

lemma set_rowLoop:
  "w \<in> set (rowLoop body rowCount colCount) \<longleftrightarrow>
     (\<exists>rw<rowCount. \<exists>cl<colCount. w = body rw cl)"
  unfolding set_rowLoop_eq UN_iff image_iff Bex_def lessThan_iff ..

lemma processWellPlate_cases:
  "processWellPlate ctx g rowCount colCount neg pos rcs units =
     (if wellRadius g = 0 then Rejected radiusError
      else if getPixelData ctx (pt_x neg) (pt_y neg) (wellRadius g) = [] \<or>
              getPixelData ctx (pt_x pos) (pt_y pos) (wellRadius g) = []
           then Rejected referenceError
      else case calculateIC50 (plateWells ctx g rowCount colCount neg pos) rcs rowCount units of
             Inl e \<Rightarrow> Uncaught e
           | Inr result \<Rightarrow>
               Resolved \<lparr>wellResults = plateWells ctx g rowCount colCount neg pos, ic50 = result\<rparr>)"
  by (simp add: processWellPlate_def Let_def plateWells_def referenceLab_def calibrationMagSq_def
      split: sum.splits)

lemma processWellPlate_Resolved:
  assumes "processWellPlate ctx g rowCount colCount neg pos rcs units = Resolved out"
  shows "wellResults out = plateWells ctx g rowCount colCount neg pos"
    and "calculateIC50 (plateWells ctx g rowCount colCount neg pos) rcs rowCount units = Inr (ic50 out)"
    and "wellRadius g \<noteq> 0"
proof -
  show r: "wellRadius g \<noteq> 0"
    using assms by (cases "wellRadius g = 0") (simp_all add: processWellPlate_cases)
  have ne: "\<not> (getPixelData ctx (pt_x neg) (pt_y neg) (wellRadius g) = [] \<or>
              getPixelData ctx (pt_x pos) (pt_y pos) (wellRadius g) = [])"
    using assms r
    by (cases "getPixelData ctx (pt_x neg) (pt_y neg) (wellRadius g) = [] \<or>
              getPixelData ctx (pt_x pos) (pt_y pos) (wellRadius g) = []")
       (simp_all add: processWellPlate_cases)
  obtain res where res: "calculateIC50 (plateWells ctx g rowCount colCount neg pos) rcs rowCount units = Inr res"
    and out: "out = \<lparr>wellResults = plateWells ctx g rowCount colCount neg pos, ic50 = res\<rparr>"
    using assms r ne
    by (cases "calculateIC50 (plateWells ctx g rowCount colCount neg pos) rcs rowCount units")
       (simp_all add: processWellPlate_cases)
  show "wellResults out = plateWells ctx g rowCount colCount neg pos" using out by simp
  show "calculateIC50 (plateWells ctx g rowCount colCount neg pos) rcs rowCount units = Inr (ic50 out)"
    using res out by simp
qed

lemma pair_if:
  "(case (if c then (a, b) else (d, e)) of (x, y) \<Rightarrow> f x y) = (if c then f a b else f d e)"
  by simp

lemma well_if:
  "(if c then \<lparr>well_id = i, row = r, col = k, center = p, avgColor = a, intensity = x,
                viability = x * 100\<rparr>
    else \<lparr>well_id = i, row = r, col = k, center = p, avgColor = a, intensity = 0,
            viability = 0\<rparr>) =
   \<lparr>well_id = i, row = r, col = k, center = p, avgColor = a,
     intensity = (if c then x else 0), viability = (if c then x else 0) * 100\<rparr>"
  by simp

lemma analyzeWell_unfold:
  "analyzeWell ctx g radius labMin gv gm rw cl =
     (let pixels = getPixelData ctx (pt_x (gridCenter g rw cl)) (pt_y (gridCenter g rw cl)) radius;
          avg = getRobustAverageColor pixels;
          labWell = rgbToLab avg;
          dotProduct = ((lab_l labWell - lab_l labMin) * lab_l gv)
                     + ((lab_a labWell - lab_a labMin) * lab_a gv)
                     + ((lab_b labWell - lab_b labMin) * lab_b gv);
          intens = (if length pixels > 0 \<and> gm > 1 / 1000000
                    then max 0 (min 1 (dotProduct / gm)) else 0)
      in \<lparr>well_id = wellLabel rw cl, row = rw, col = cl, center = gridCenter g rw cl,
          avgColor = avg, intensity = intens, viability = intens * 100\<rparr>)"
  unfolding analyzeWell_def Let_def pair_if well_if gridCenter_def wellLabel_def
  by (simp only: Point.simps Lab.simps)

lemma analyzeWell_fields:
  "row (analyzeWell ctx g radius labMin gv gm rw cl) = rw"
  "col (analyzeWell ctx g radius labMin gv gm rw cl) = cl"
  "center (analyzeWell ctx g radius labMin gv gm rw cl) = gridCenter g rw cl"
  "well_id (analyzeWell ctx g radius labMin gv gm rw cl) = wellLabel rw cl"
  by (simp_all add: analyzeWell_unfold Let_def)

lemma analyzeWell_intensity:
  "0 \<le> intensity (analyzeWell ctx g radius labMin gv gm rw cl)"
  "intensity (analyzeWell ctx g radius labMin gv gm rw cl) \<le> 1"
  "viability (analyzeWell ctx g radius labMin gv gm rw cl) =
     intensity (analyzeWell ctx g radius labMin gv gm rw cl) * 100"
  by (simp_all add: analyzeWell_unfold Let_def)

lemma analyzeWell_forced_zero:
  "getPixelData ctx (pt_x (gridCenter g rw cl)) (pt_y (gridCenter g rw cl)) radius = [] \<or>
     gm \<le> 1 / 1000000 \<Longrightarrow>
   intensity (analyzeWell ctx g radius labMin gv gm rw cl) = 0"
  by (auto simp add: analyzeWell_unfold Let_def)


lemma hypot_axis: "hypot a 0 = \<bar>a\<bar>" "hypot 0 b = \<bar>b\<bar>"
  by (simp_all add: hypot_def)

lemma hypot_zero_iff: "hypot a b = 0 \<longleftrightarrow> a = 0 \<and> b = 0"
  by (simp add: hypot_def)

lemma hypot_nonneg: "0 \<le> hypot a b"
  by (simp add: hypot_def)

lemma wellRadius_zero_iff:
  "wellRadius g = 0 \<longleftrightarrow>
     (pt_x (grid_u g) = 0 \<and> pt_y (grid_u g) = 0) \<or> (pt_x (grid_v g) = 0 \<and> pt_y (grid_v g) = 0)"
proof -
  let ?a = "hypot (pt_x (grid_u g)) (pt_y (grid_u g))"
  let ?b = "hypot (pt_x (grid_v g)) (pt_y (grid_v g))"
  have "wellRadius g = 0 \<longleftrightarrow> min ?a ?b = 0"
    by (simp add: wellRadius_def Let_def WELL_RADIUS_FACTOR_def)
  also have "\<dots> \<longleftrightarrow> ?a = 0 \<or> ?b = 0"
    using hypot_nonneg [of "pt_x (grid_u g)" "pt_y (grid_u g)"]
      hypot_nonneg [of "pt_x (grid_v g)" "pt_y (grid_v g)"]
    by (auto simp: min_def)
  finally show ?thesis by (simp add: hypot_zero_iff)
qed

lemma wellRadius_demoGrid: "wellRadius demoGrid = 3"
  by (simp add: wellRadius_def Let_def WELL_RADIUS_FACTOR_def demoGrid_def hypot_axis)

lemma getPixelData_nonempty:
  "readable ctx (js_round (x - real_of_int (max 1 (js_round radius0))))
     (js_round (y - real_of_int (max 1 (js_round radius0)))) (2 * max 1 (js_round radius0)) \<Longrightarrow>
   getPixelData ctx x y radius0 \<noteq> []"
proof -
  have "0 < max 1 (js_round radius0)" by simp
  from center_in_diskOffsets [OF this] have "diskOffsets (max 1 (js_round radius0)) \<noteq> []" by auto
  then show "readable ctx (js_round (x - real_of_int (max 1 (js_round radius0))))
     (js_round (y - real_of_int (max 1 (js_round radius0)))) (2 * max 1 (js_round radius0)) \<Longrightarrow>
   getPixelData ctx x y radius0 \<noteq> []"
    by (simp add: getPixelData_eq Let_def)
qed

lemma getPixelData_demo_nonempty: "getPixelData demoCanvas 2 2 3 \<noteq> []"
  by (rule getPixelData_nonempty) (simp add: js_round_def readable_def isLong_def demoCanvas_def)

lemma calculateIC50_covered:
  "rowsCovered rcs n \<Longrightarrow> \<exists>res. calculateIC50 wells rcs n units = Inr res"
  using calculateIC50_Inl [of wells rcs n units]
  by (cases "calculateIC50 wells rcs n units") auto

lemma decimalValue_numberToString: "decimalValue (numberToString n) = n"
proof (induction n rule: numberToString.induct)
  case (1 n)
  show ?case
  proof (cases "n < 10")
    case True
    then show ?thesis by (subst numberToString.simps) (simp add: decimalValue_def)
  next
    case False
    have "decimalValue (numberToString n) = 10 * decimalValue (numberToString (n div 10)) + n mod 10"
      using False by (subst numberToString.simps) (simp add: decimalValue_def)
    then show ?thesis using 1 [OF False] by simp
  qed
qed

lemma digits_numberToString: "list_all isDigit (numberToString n)"
proof (induction n rule: numberToString.induct)
  case (1 n)
  show ?case
  proof (cases "n < 10")
    case True
    then show ?thesis by (subst numberToString.simps) (simp add: isDigit_def)
  next
    case False
    have "n mod 10 < 10" by simp
    then have "isDigit (48 + n mod 10)" unfolding isDigit_def by linarith
    then show ?thesis
      using False 1 [OF False] by (subst numberToString.simps) simp
  qed
qed

lemma plateWells_index:
  "map (\<lambda>w. (row w, col w)) (plateWells ctx g rowCount colCount neg pos) =
     concat (map (\<lambda>rw. map (\<lambda>cl. (rw, cl)) [0..<colCount]) [0..<rowCount])"
  by (simp add: plateWells_def rowLoop_eq map_concat o_def analyzeWell_fields)

lemma plateWells_member:
  assumes "w \<in> set (plateWells ctx g rowCount colCount neg pos)"
  obtains rw cl where "rw < rowCount" "cl < colCount"
    "w = analyzeWell ctx g (wellRadius g) (referenceLab ctx neg (wellRadius g))
                (gradientVectorOf (referenceLab ctx neg (wellRadius g))
                   (referenceLab ctx pos (wellRadius g)))
                (calibrationMagSq ctx neg pos (wellRadius g)) rw cl"
  using assms unfolding plateWells_def set_rowLoop by blast


lemma demo_run:
  "\<exists>res. processWellPlate demoCanvas demoGrid 2 2 demoPoint demoPoint [1, 10] [] =
     Resolved \<lparr>wellResults = plateWells demoCanvas demoGrid 2 2 demoPoint demoPoint, ic50 = res\<rparr>"
proof -
  have cov: "rowsCovered [1, 10] 2" by (simp add: rowsCovered_def enumerate_simps)
  from calculateIC50_covered [OF cov]
  obtain res where "calculateIC50 (plateWells demoCanvas demoGrid 2 2 demoPoint demoPoint) [1, 10] 2 [] = Inr res"
    by blast
  then show ?thesis
    using getPixelData_demo_nonempty
    by (simp add: processWellPlate_cases wellRadius_demoGrid demoPoint_def)
qed

lemma demo_first_well:
  "analyzeWell demoCanvas demoGrid (wellRadius demoGrid) (referenceLab demoCanvas demoPoint (wellRadius demoGrid))
     (gradientVectorOf (referenceLab demoCanvas demoPoint (wellRadius demoGrid))
        (referenceLab demoCanvas demoPoint (wellRadius demoGrid)))
     (calibrationMagSq demoCanvas demoPoint demoPoint (wellRadius demoGrid)) 0 0
   \<in> set (plateWells demoCanvas demoGrid 2 2 demoPoint demoPoint)"
  unfolding plateWells_def set_rowLoop by (intro exI [of _ 0] conjI) simp_all

text \<open>
  C4. Every well result of a successful analysis has its intensity in \<open>[0, 1]\<close> and its
  viability equal to the intensity times 100; and when the well's pixel sample is empty or
  the squared magnitude of the calibration gradient is below \<open>10^-6\<close>, the intensity is 0.
\<close>

theorem processWellPlate_intensity:
  assumes "processWellPlate ctx gridConfig rowCount colCount neg pos rcs units = Resolved out"
    and "w \<in> set (wellResults out)"
  shows "0 \<le> intensity w \<and> intensity w \<le> 1 \<and> viability w = intensity w * 100 \<and>
         (getPixelData ctx (pt_x (center w)) (pt_y (center w)) (wellRadius gridConfig) = [] \<or>
          calibrationMagSq ctx neg pos (wellRadius gridConfig) < 1 / 1000000
            \<longrightarrow> intensity w = 0)"
proof -
  from assms have "w \<in> set (plateWells ctx gridConfig rowCount colCount neg pos)"
    by (simp add: processWellPlate_Resolved(1))
  then obtain rw cl where w:
    "w = analyzeWell ctx gridConfig (wellRadius gridConfig) (referenceLab ctx neg (wellRadius gridConfig))
                (gradientVectorOf (referenceLab ctx neg (wellRadius gridConfig))
                   (referenceLab ctx pos (wellRadius gridConfig)))
                (calibrationMagSq ctx neg pos (wellRadius gridConfig)) rw cl"
    by (rule plateWells_member)
  have c: "center w = gridCenter gridConfig rw cl" unfolding w by (rule analyzeWell_fields)
  have z: "getPixelData ctx (pt_x (center w)) (pt_y (center w)) (wellRadius gridConfig) = [] \<or>
          calibrationMagSq ctx neg pos (wellRadius gridConfig) < 1 / 1000000
            \<Longrightarrow> intensity w = 0"
    unfolding c unfolding w by (rule analyzeWell_forced_zero) auto
  show ?thesis
    using z analyzeWell_intensity [of ctx gridConfig "wellRadius gridConfig"
        "referenceLab ctx neg (wellRadius gridConfig)"
        "gradientVectorOf (referenceLab ctx neg (wellRadius gridConfig))
                   (referenceLab ctx pos (wellRadius gridConfig))"
        "calibrationMagSq ctx neg pos (wellRadius gridConfig)" rw cl]
    unfolding w [symmetric] by blast
qed

theorem processWellPlate_intensity_witness:
  "\<exists>out w. processWellPlate demoCanvas demoGrid 2 2 demoPoint demoPoint [1, 10] [] = Resolved out \<and>
      w \<in> set (wellResults out) \<and>
      calibrationMagSq demoCanvas demoPoint demoPoint (wellRadius demoGrid) < 1 / 1000000 \<and>
      0 \<le> intensity w \<and> intensity w \<le> 1 \<and> viability w = intensity w * 100 \<and> intensity w = 0"
proof -
  from demo_run obtain res where run:
    "processWellPlate demoCanvas demoGrid 2 2 demoPoint demoPoint [1, 10] [] =
       Resolved \<lparr>wellResults = plateWells demoCanvas demoGrid 2 2 demoPoint demoPoint, ic50 = res\<rparr>"
    by blast
  define out where "out = \<lparr>wellResults = plateWells demoCanvas demoGrid 2 2 demoPoint demoPoint, ic50 = res\<rparr>"
  define w where "w = analyzeWell demoCanvas demoGrid (wellRadius demoGrid)
     (referenceLab demoCanvas demoPoint (wellRadius demoGrid))
     (gradientVectorOf (referenceLab demoCanvas demoPoint (wellRadius demoGrid))
        (referenceLab demoCanvas demoPoint (wellRadius demoGrid)))
     (calibrationMagSq demoCanvas demoPoint demoPoint (wellRadius demoGrid)) 0 0"
  have mem: "w \<in> set (wellResults out)" unfolding w_def out_def using demo_first_well by simp
  have deg: "calibrationMagSq demoCanvas demoPoint demoPoint (wellRadius demoGrid) < 1 / 1000000"
    by (simp add: calibrationMagSq_def gradientVectorOf_def magSq_def)
  have run': "processWellPlate demoCanvas demoGrid 2 2 demoPoint demoPoint [1, 10] [] = Resolved out"
    using run by (simp add: out_def)
  have "0 \<le> intensity w \<and> intensity w \<le> 1 \<and> viability w = intensity w * 100 \<and> intensity w = 0"
    using processWellPlate_intensity [OF run' mem] deg by simp
  then show ?thesis
    using run' mem deg by (intro exI [of _ out] exI [of _ w]) simp
qed

text \<open>
  C8, as the code has it. The well results of a successful analysis are one per row and
  column, in row-major order; each has its center at \<open>origin + col * u + row * v\<close>, and
  its label is the one code unit \<open>65 + row\<close> (modulo \<open>2^16\<close>) followed by the decimal
  digits of \<open>col + 1\<close>. That code unit is a letter, \<open>A\<close> to \<open>Z\<close>, for the rows 0 to 25.
\<close>

theorem processWellPlate_row_major:
  assumes "processWellPlate ctx gridConfig rowCount colCount neg pos rcs units = Resolved out"
  shows "map (\<lambda>w. (row w, col w)) (wellResults out) =
           concat (map (\<lambda>rw. map (\<lambda>cl. (rw, cl)) [0..<colCount]) [0..<rowCount]) \<and>
         list_all (\<lambda>w. center w = gridCenter gridConfig (row w) (col w) \<and>
                       hd (well_id w) = (65 + row w) mod 65536 \<and>
                       (row w < 26 \<longrightarrow> isCapitalLetter (hd (well_id w))) \<and>
                       list_all isDigit (tl (well_id w)) \<and>
                       decimalValue (tl (well_id w)) = col w + 1) (wellResults out)"
proof -
  have wr: "wellResults out = plateWells ctx gridConfig rowCount colCount neg pos"
    using assms by (rule processWellPlate_Resolved(1))
  have per: "center w = gridCenter gridConfig (row w) (col w) \<and>
        hd (well_id w) = (65 + row w) mod 65536 \<and>
        (row w < 26 \<longrightarrow> isCapitalLetter (hd (well_id w))) \<and>
        list_all isDigit (tl (well_id w)) \<and> decimalValue (tl (well_id w)) = col w + 1"
    if "w \<in> set (plateWells ctx gridConfig rowCount colCount neg pos)" for w
  proof -
    from that obtain rw cl where w:
      "w = analyzeWell ctx gridConfig (wellRadius gridConfig) (referenceLab ctx neg (wellRadius gridConfig))
                (gradientVectorOf (referenceLab ctx neg (wellRadius gridConfig))
                   (referenceLab ctx pos (wellRadius gridConfig)))
                (calibrationMagSq ctx neg pos (wellRadius gridConfig)) rw cl"
      by (rule plateWells_member)
    show ?thesis
      unfolding w
      by (simp add: analyzeWell_fields wellLabel_def fromCharCode_def isCapitalLetter_def
          decimalValue_numberToString digits_numberToString)
  qed
  have idx: "map (\<lambda>w. (row w, col w)) (plateWells ctx gridConfig rowCount colCount neg pos) =
      concat (map (\<lambda>rw. map (\<lambda>cl. (rw, cl)) [0..<colCount]) [0..<rowCount])"
    by (simp add: plateWells_index)
  show ?thesis
    unfolding wr
    by (rule conjI, rule idx, rule list_all_iff [THEN iffD2], rule ballI, erule per)
qed

theorem processWellPlate_row_major_witness:
  "\<exists>out. processWellPlate demoCanvas demoGrid 2 2 demoPoint demoPoint [1, 10] [] = Resolved out \<and>
      map (\<lambda>w. (row w, col w)) (wellResults out) = [(0, 0), (0, 1), (1, 0), (1, 1)] \<and>
      map center (wellResults out) =
        [\<lparr>pt_x = 0, pt_y = 0\<rparr>, \<lparr>pt_x = 10, pt_y = 0\<rparr>, \<lparr>pt_x = 0, pt_y = 10\<rparr>,
         \<lparr>pt_x = 10, pt_y = 10\<rparr>] \<and>
      map well_id (wellResults out) = [[65, 49], [65, 50], [66, 49], [66, 50]] \<and>
      list_all (\<lambda>w. isCapitalLetter (hd (well_id w))) (wellResults out)"
proof -
  from demo_run obtain res where run:
    "processWellPlate demoCanvas demoGrid 2 2 demoPoint demoPoint [1, 10] [] =
       Resolved \<lparr>wellResults = plateWells demoCanvas demoGrid 2 2 demoPoint demoPoint, ic50 = res\<rparr>"
    by blast
  define out where "out = \<lparr>wellResults = plateWells demoCanvas demoGrid 2 2 demoPoint demoPoint, ic50 = res\<rparr>"
  have run': "processWellPlate demoCanvas demoGrid 2 2 demoPoint demoPoint [1, 10] [] = Resolved out"
    using run by (simp add: out_def)
  have u: "[0..<2] = [0, Suc 0]" by (simp add: numeral_2_eq_2)
  have n1: "numberToString (Suc 0) = [49]" by (subst numberToString.simps) simp
  have n2: "numberToString (Suc (Suc 0)) = [50]" by (subst numberToString.simps) simp
  have idx: "map (\<lambda>w. (row w, col w)) (wellResults out) = [(0, 0), (0, 1), (1, 0), (1, 1)]"
    using processWellPlate_row_major [OF run'] by (simp add: u)
  have w: "wellResults out = plateWells demoCanvas demoGrid 2 2 demoPoint demoPoint"
    by (simp add: out_def)
  have ctr: "map center (wellResults out) =
        [\<lparr>pt_x = 0, pt_y = 0\<rparr>, \<lparr>pt_x = 10, pt_y = 0\<rparr>, \<lparr>pt_x = 0, pt_y = 10\<rparr>,
         \<lparr>pt_x = 10, pt_y = 10\<rparr>]"
    unfolding w plateWells_def rowLoop_eq
    by (simp add: u analyzeWell_fields gridCenter_def demoGrid_def)
  have ids: "map well_id (wellResults out) = [[65, 49], [65, 50], [66, 49], [66, 50]]"
    unfolding w plateWells_def rowLoop_eq
    by (simp add: u analyzeWell_fields wellLabel_def fromCharCode_def n1 n2)
  have ltr: "list_all (\<lambda>w. isCapitalLetter (hd (well_id w))) (wellResults out)"
    unfolding w plateWells_def rowLoop_eq
    by (simp add: u analyzeWell_fields wellLabel_def fromCharCode_def isCapitalLetter_def)
  show ?thesis
    by (rule exI [of _ out]) (intro conjI run' idx ctr ids ltr)
qed

text \<open>
  As the specification words it, the statement fails: a plate of 27 rows is analyzed, and the
  label of the well in row 26 starts with the code unit 91, the bracket \<open>[\<close>, which is no
  letter.
\<close>

theorem processWellPlate_row_major_counterexample:
  "length (resolvedWells (processWellPlate demoCanvas demoGrid 27 1 demoPoint demoPoint [1, 10] [])) = 27 \<and>
   row (resolvedWells (processWellPlate demoCanvas demoGrid 27 1 demoPoint demoPoint [1, 10] []) ! 26) = 26 \<and>
   well_id (resolvedWells (processWellPlate demoCanvas demoGrid 27 1 demoPoint demoPoint [1, 10] []) ! 26)
     = [91, 49] \<and>
   \<not> isCapitalLetter 91"
proof -
  have cov: "rowsCovered [1, 10] 27" by (simp add: rowsCovered_def enumerate_simps)
  from calculateIC50_covered [OF cov]
  obtain res where "calculateIC50 (plateWells demoCanvas demoGrid 27 1 demoPoint demoPoint) [1, 10] 27 [] = Inr res"
    by blast
  then have run: "resolvedWells (processWellPlate demoCanvas demoGrid 27 1 demoPoint demoPoint [1, 10] [])
      = plateWells demoCanvas demoGrid 27 1 demoPoint demoPoint"
    using getPixelData_demo_nonempty
    by (simp add: processWellPlate_cases wellRadius_demoGrid demoPoint_def resolvedWells_def)
  have one: "rowLoop body 27 1 = map (\<lambda>rw. body rw 0) [0..<27]" for body :: "nat \<Rightarrow> nat \<Rightarrow> WellResult"
    unfolding rowLoop_eq by (induction "27 :: nat") (simp_all add: concat_map_singleton)
  have n1: "numberToString (Suc 0) = [49]" by (subst numberToString.simps) simp
  show ?thesis
    unfolding run plateWells_def one
    by (simp add: analyzeWell_fields wellLabel_def fromCharCode_def n1 isCapitalLetter_def)
qed

text \<open>
  C7. An analysis can stop inside the IC50 step: with three concentrations for a plate of
  two rows, the third positive, the radius and both reference samples are fine, the wells
  are analyzed, and \<^verbatim>\<open>calculateIC50\<close> throws inside the \<^verbatim>\<open>onload\<close> handler; the promise
  is neither resolved with the well results nor rejected.
\<close>

theorem processWellPlate_ic50_throws:
  "processWellPlate demoCanvas demoGrid 2 2 demoPoint demoPoint [1, 2, 3] units = Uncaught TypeError"
proof -
  have "calculateIC50 (plateWells demoCanvas demoGrid 2 2 demoPoint demoPoint) [1, 2, 3] 2 units
      = Inl TypeError"
    by (simp add: calculateIC50_Inl rowsCovered_def enumerate_simps)
  then show ?thesis
    using getPixelData_demo_nonempty
    by (simp add: processWellPlate_cases wellRadius_demoGrid demoPoint_def)
qed

text \<open>The two fatal conditions of the analyzer, and what is left to the IC50 step.\<close>

lemma processWellPlate_radius_zero:
  "wellRadius gridConfig = 0 \<Longrightarrow>
   processWellPlate ctx gridConfig rowCount colCount neg pos rcs units = Rejected radiusError"
  by (simp add: processWellPlate_cases)

lemma processWellPlate_reference_empty:
  "wellRadius gridConfig \<noteq> 0 \<Longrightarrow>
   getPixelData ctx (pt_x neg) (pt_y neg) (wellRadius gridConfig) = [] \<or>
   getPixelData ctx (pt_x pos) (pt_y pos) (wellRadius gridConfig) = [] \<Longrightarrow>
   processWellPlate ctx gridConfig rowCount colCount neg pos rcs units = Rejected referenceError"
  by (simp add: processWellPlate_cases)

lemma processWellPlate_ic50_absent:
  assumes "wellRadius gridConfig \<noteq> 0"
    and "getPixelData ctx (pt_x neg) (pt_y neg) (wellRadius gridConfig) \<noteq> []"
    and "getPixelData ctx (pt_x pos) (pt_y pos) (wellRadius gridConfig) \<noteq> []"
    and "rowsCovered rcs rowCount"
  shows "\<exists>res. processWellPlate ctx gridConfig rowCount colCount neg pos rcs units =
           Resolved \<lparr>wellResults = plateWells ctx gridConfig rowCount colCount neg pos, ic50 = res\<rparr>"
proof -
  from calculateIC50_covered [OF assms(4)]
  obtain res where "calculateIC50 (plateWells ctx gridConfig rowCount colCount neg pos) rcs rowCount units = Inr res"
    by blast
  then show ?thesis using assms(1-3) by (simp add: processWellPlate_cases)
qed


end
